theory Spec2Isabelle
  imports Main "HOL-Library.Monad_Syntax" "HOL-Library.Signed_Division"
begin

section \<open>Conventions of the embedding\<close>

text \<open>
  The repository is an SPMD program: \<open>npes\<close> processes (PEs, ranks) run the same code
  over symmetric memory. A symmetric object is modelled as a list with one entry per
  PE (entry \<open>p\<close> is PE \<open>p\<close>'s copy); a one-sided put or atomic on PE \<open>i\<close> is an update of
  entry \<open>i\<close>. A function that the source runs on one PE takes that PE's number \<open>pe\<close>.

  A computation that has no defined result in C++ (a read or write outside an array,
  a division by zero, a wait on a lock that is never released, an \<open>exit\<close>) is the value
  \<open>None\<close>; every other computation is \<open>Some\<close> of its result.
\<close>

subsection \<open>Arrays with checked indices\<close>

definition rd :: "'a list \<Rightarrow> nat \<Rightarrow> 'a option" where
  "rd xs i = (if i < length xs then Some (xs ! i) else None)"

definition wr :: "'a list \<Rightarrow> nat \<Rightarrow> 'a \<Rightarrow> 'a list option" where
  "wr xs i v = (if i < length xs then Some (xs[i := v]) else None)"

text \<open>\<open>std::copy\<close> and \<open>shmem_put\<close> of the elements \<open>ys\<close> to \<open>xs + k\<close>; an empty range
  touches nothing.\<close>

definition write_range :: "'a list \<Rightarrow> nat \<Rightarrow> 'a list \<Rightarrow> 'a list option" where
  "write_range xs k ys =
     (if ys = [] then Some xs
      else if k + length ys \<le> length xs
      then Some (take k xs @ ys @ drop (k + length ys) xs)
      else None)"

text \<open>Conversions of an integer to the signed 32-bit and 64-bit types: the value is kept
  modulo \<open>2^32\<close> and \<open>2^64\<close>.\<close>

definition to_int32 :: "int \<Rightarrow> int" where
  "to_int32 x = (x + 2 ^ 31) mod 2 ^ 32 - 2 ^ 31"

definition to_int64 :: "int \<Rightarrow> int" where
  "to_int64 x = (x + 2 ^ 63) mod 2 ^ 64 - 2 ^ 63"

section \<open>sliding\_queue.h\<close>

text \<open>\<open>SlidingQueue<T>\<close>: the backing array \<open>shared\<close> (its length is the capacity given to
  the constructor) and the three indices. The sources use the queue with \<open>T = NodeID\<close>
  only, a 32-bit integer.\<close>

record 'a SlidingQueue =
  shared :: "'a list"
  shared_in :: nat
  shared_out_start :: nat
  shared_out_end :: nat

text \<open>\<open>QueueBuffer<T>\<close>: \<open>inq\<close> is the field \<open>in\<close>, \<open>local_queue\<close> the staging array of
  \<open>local_size\<close> elements. \<open>new T[local_size]\<close> leaves the array's contents
  indeterminate, so they are whatever list the buffer is built from. \<open>heap_after\<close> is
  what the heap holds behind the array, element by element: \<open>flush\<close> reads it, see
  \<open>put64_words\<close>.\<close>

record 'a QueueBuffer =
  inq :: nat
  local_queue :: "'a list"
  heap_after :: "nat \<Rightarrow> 'a"

definition local_size :: "'a QueueBuffer \<Rightarrow> nat" where
  "local_size b = length (local_queue b)"

text \<open>The symmetric heap as far as the queue is concerned: every PE's copy of the
  queue object and the lock word \<open>QLOCK\<close>.\<close>

record 'a pgas =
  queues :: "'a SlidingQueue list"
  QLOCK :: bool

definition SlidingQueue_new :: "nat \<Rightarrow> 'a::zero SlidingQueue" where
  "SlidingQueue_new shared_size =
     \<lparr>shared = replicate shared_size 0, shared_in = 0,
      shared_out_start = 0, shared_out_end = 0\<rparr>"

definition sq_push_back :: "'a SlidingQueue \<Rightarrow> 'a \<Rightarrow> 'a SlidingQueue option" where
  "sq_push_back q to_add =
     do { s \<leftarrow> wr (shared q) (shared_in q) to_add;
          Some (q\<lparr>shared := s, shared_in := shared_in q + 1\<rparr>) }"

definition sq_empty :: "'a SlidingQueue \<Rightarrow> bool" where
  "sq_empty q = (shared_out_start q = shared_out_end q)"

definition sq_reset :: "'a SlidingQueue \<Rightarrow> 'a SlidingQueue" where
  "sq_reset q = q\<lparr>shared_out_start := 0, shared_out_end := 0, shared_in := 0\<rparr>"

definition slide_window :: "'a SlidingQueue \<Rightarrow> 'a SlidingQueue" where
  "slide_window q =
     q\<lparr>shared_out_start := shared_out_end q, shared_out_end := shared_in q\<rparr>"

text \<open>\<open>size()\<close> returns \<open>end() - begin()\<close> as a \<open>size_t\<close>: when \<open>shared_out_end\<close> is below
  \<open>shared_out_start\<close> the difference wraps around \<open>2^64\<close>.\<close>

definition sq_size :: "'a SlidingQueue \<Rightarrow> nat" where
  "sq_size q = nat ((int (shared_out_end q) - int (shared_out_start q)) mod 2 ^ 64)"

text \<open>The elements between \<open>begin()\<close> and \<open>end()\<close>.\<close>

definition sq_window :: "'a SlidingQueue \<Rightarrow> 'a list option" where
  "sq_window q =
     (if shared_out_start q \<le> shared_out_end q \<and> shared_out_end q \<le> length (shared q)
      then Some (take (shared_out_end q - shared_out_start q) (drop (shared_out_start q) (shared q)))
      else None)"

subsection \<open>QueueBuffer::flush\<close>

definition shmem_set_lock :: "'a pgas \<Rightarrow> 'a pgas option" where
  "shmem_set_lock st = (if QLOCK st then None else Some (st\<lparr>QLOCK := True\<rparr>))"

definition shmem_clear_lock :: "'a pgas \<Rightarrow> 'a pgas" where
  "shmem_clear_lock st = st\<lparr>QLOCK := False\<rparr>"

text \<open>What \<open>shmem_put64(shared_queue+copy_start, local_queue, local_size, i)\<close> reads:
  \<open>local_size\<close> words of 64 bits from \<open>local_queue\<close> on. The elements are 32-bit node ids,
  so these are \<open>2 * local_size\<close> elements: the array and as many elements of the heap
  behind it.\<close>

definition put64_words :: "'a QueueBuffer \<Rightarrow> 'a list" where
  "put64_words b = local_queue b @ map (heap_after b) [0..<local_size b]"

text \<open>The body of the loop \<open>for (int i = 0; i < npes; i++)\<close> of \<open>flush\<close>, for the PEs
  \<open>is\<close> still to visit: on every \<open>i \<noteq> pe\<close>, \<open>shmem_put64\<close> of \<open>local_size\<close> words to
  \<open>shared_queue + copy_start\<close>, and \<open>shmem_ulong_put\<close> of \<open>copy_end\<close> to \<open>shared_in\<close>.\<close>

fun flush_puts ::
  "nat \<Rightarrow> nat \<Rightarrow> nat \<Rightarrow> 'a QueueBuffer \<Rightarrow> nat list \<Rightarrow> 'a SlidingQueue list \<Rightarrow> 'a SlidingQueue list option"
where
  "flush_puts pe copy_start copy_end b [] qs = Some qs"
| "flush_puts pe copy_start copy_end b (i # is) qs =
     (if i \<noteq> pe then
        do { q \<leftarrow> rd qs i;
             s \<leftarrow> write_range (shared q) copy_start (put64_words b);
             flush_puts pe copy_start copy_end b is
               (qs[i := q\<lparr>shared := s, shared_in := copy_end\<rparr>]) }
      else flush_puts pe copy_start copy_end b is qs)"

text \<open>\<open>flush\<close> as PE \<open>pe\<close> runs it. The lock is held from the first statement to the
  last, so no other flush interleaves with it and the whole body is one step on the
  symmetric heap. \<open>npes\<close> is the number of PEs, the length of \<open>queues\<close>. \<open>std::copy\<close> reads
  \<open>in\<close> elements of \<open>local_queue\<close>, which has \<open>local_size\<close>.\<close>

definition flush :: "nat \<Rightarrow> 'a QueueBuffer \<Rightarrow> 'a pgas \<Rightarrow> ('a QueueBuffer \<times> 'a pgas) option" where
  "flush pe b st =
     do { st1 \<leftarrow> shmem_set_lock st;
          q \<leftarrow> rd (queues st1) pe;
          let copy_start = shared_in q;
          let q1 = q\<lparr>shared_in := shared_in q + inq b\<rparr>;
          let copy_end = copy_start + local_size b;
          items \<leftarrow> (if inq b \<le> local_size b then Some (take (inq b) (local_queue b)) else None);
          s \<leftarrow> write_range (shared q1) copy_start items;
          let qs1 = (queues st1)[pe := q1\<lparr>shared := s\<rparr>];
          qs2 \<leftarrow> flush_puts pe copy_start copy_end b [0..<length (queues st1)] qs1;
          Some (b\<lparr>inq := 0\<rparr>, shmem_clear_lock (st1\<lparr>queues := qs2\<rparr>)) }"

definition qb_push_back ::
  "nat \<Rightarrow> 'a QueueBuffer \<Rightarrow> 'a \<Rightarrow> 'a pgas \<Rightarrow> ('a QueueBuffer \<times> 'a pgas) option" where
  "qb_push_back pe b to_add st =
     do { (b1, st1) \<leftarrow> (if inq b = local_size b then flush pe b st else Some (b, st));
          lq \<leftarrow> wr (local_queue b1) (inq b1) to_add;
          Some (b1\<lparr>local_queue := lq, inq := inq b1 + 1\<rparr>, st1) }"

text \<open>The flush as section 3 of the specification words it: the reservation is a
  \<open>fetch_add\<close> of \<open>in\<close> on rank 0's \<open>shared_in\<close>, the \<open>in\<close> staged items go to every rank's
  backing array at \<open>copy_start\<close>, and every rank's \<open>shared_in\<close> becomes
  \<open>copy_start + in\<close>.\<close>

fun spec_puts ::
  "nat \<Rightarrow> nat \<Rightarrow> 'a list \<Rightarrow> nat list \<Rightarrow> 'a SlidingQueue list \<Rightarrow> 'a SlidingQueue list option"
where
  "spec_puts copy_start new_in items [] qs = Some qs"
| "spec_puts copy_start new_in items (i # is) qs =
     do { q \<leftarrow> rd qs i;
          s \<leftarrow> write_range (shared q) copy_start items;
          spec_puts copy_start new_in items is
            (qs[i := q\<lparr>shared := s, shared_in := new_in\<rparr>]) }"

definition flush_spec ::
  "nat \<Rightarrow> 'a QueueBuffer \<Rightarrow> 'a pgas \<Rightarrow> ('a QueueBuffer \<times> 'a pgas) option" where
  "flush_spec pe b st =
     do { st1 \<leftarrow> shmem_set_lock st;
          q0 \<leftarrow> rd (queues st1) 0;
          let copy_start = shared_in q0;
          qs \<leftarrow> spec_puts copy_start (copy_start + inq b) (take (inq b) (local_queue b))
                  [0..<length (queues st1)] (queues st1);
          Some (b\<lparr>inq := 0\<rparr>, shmem_clear_lock (st1\<lparr>queues := qs\<rparr>)) }"

section \<open>bfs.cc\<close>

subsection \<open>What bfs.cc takes from headers that are not among the sources\<close>

text \<open>Modelled from the spec: \<open>graph.h\<close> (class \<open>CSRGraph\<close>) is not among the sources. Section 3
  of the specification has a CSR graph of two halves, \<open>out\<close> and \<open>in\<close>, each giving every
  vertex its neighbour list. A node id is an index below \<open>num_nodes\<close>; \<open>out_neigh(u)\<close> and
  \<open>in_neigh(u)\<close> are the lists, \<open>out_degree(u)\<close> the length of the first. For an undirected
  graph the two halves are the same.\<close>

record Graph =
  num_nodes :: nat
  out_neighs :: "nat list list"
  in_neighs :: "nat list list"
  num_edges_directed :: int

definition out_neigh :: "Graph \<Rightarrow> nat \<Rightarrow> nat list option" where
  "out_neigh g u = (if u < num_nodes g then rd (out_neighs g) u else None)"

definition in_neigh :: "Graph \<Rightarrow> nat \<Rightarrow> nat list option" where
  "in_neigh g u = (if u < num_nodes g then rd (in_neighs g) u else None)"

definition out_degree :: "Graph \<Rightarrow> nat \<Rightarrow> int option" where
  "out_degree g u = map_option (\<lambda>ns. int (length ns)) (out_neigh g u)"

text \<open>Modelled from the spec: \<open>bitmap.h\<close> is not among the sources. Section 3 has a symmetric
  bitmap of length \<open>n\<close> of which every rank holds a full copy, with \<open>reset\<close>, \<open>set_bit\<close>,
  \<open>set_bit_atomic\<close>, \<open>get_bit\<close>, \<open>swap\<close> and \<open>merge\<close> (a bitwise OR over the ranks' copies). One
  copy is a list of \<open>n\<close> bits.\<close>

type_synonym Bitmap = "bool list"

definition Bitmap_reset :: "nat \<Rightarrow> Bitmap" where
  "Bitmap_reset n = replicate n False"

definition get_bit :: "Bitmap \<Rightarrow> nat \<Rightarrow> bool option" where
  "get_bit bm i = rd bm i"

definition set_bit :: "Bitmap \<Rightarrow> nat \<Rightarrow> Bitmap option" where
  "set_bit bm i = wr bm i True"

definition bitmap_or :: "Bitmap \<Rightarrow> Bitmap \<Rightarrow> Bitmap" where
  "bitmap_or a b = map (\<lambda>(x, y). x \<or> y) (zip a b)"

definition Bitmap_merge :: "Bitmap list \<Rightarrow> Bitmap" where
  "Bitmap_merge bms = (case bms of [] \<Rightarrow> [] | b # bs \<Rightarrow> foldl bitmap_or b bs)"

text \<open>C++ division and remainder of unsigned or non-negative operands; a zero divisor
  has no defined result.\<close>

definition cpp_div :: "nat \<Rightarrow> nat \<Rightarrow> nat option" where
  "cpp_div a b = (if b = 0 then None else Some (a div b))"

definition cpp_mod :: "nat \<Rightarrow> nat \<Rightarrow> nat option" where
  "cpp_mod a b = (if b = 0 then None else Some (a mod b))"

text \<open>C++ division of signed 64-bit operands: it truncates towards zero.\<close>

definition cpp_sdiv :: "int \<Rightarrow> int \<Rightarrow> int option" where
  "cpp_sdiv a b = (if b = 0 then None else Some (a sdiv b))"

text \<open>A \<open>for\<close> loop over the values \<open>xs\<close> with the loop body \<open>f\<close> on the state \<open>s\<close>; the loop
  has no result as soon as one round has none.\<close>

fun for_each :: "('a \<Rightarrow> 's \<Rightarrow> 's option) \<Rightarrow> 'a list \<Rightarrow> 's \<Rightarrow> 's option" where
  "for_each f [] s = Some s"
| "for_each f (x # xs) s = (case f x s of None \<Rightarrow> None | Some s' \<Rightarrow> for_each f xs s')"

text \<open>The part of the vertices that the source gives PE \<open>pe\<close>: \<open>lower_bound = offset * pe\<close>,
  and \<open>upper_bound\<close> is \<open>num_nodes\<close> on the last PE and \<open>lower_bound + offset\<close> on the others.\<close>

definition lower_bound :: "nat \<Rightarrow> nat \<Rightarrow> nat" where
  "lower_bound offset pe = offset * pe"

definition upper_bound :: "nat \<Rightarrow> nat \<Rightarrow> nat \<Rightarrow> nat \<Rightarrow> nat" where
  "upper_bound n npes offset pe =
     (if pe + 1 = npes then n else lower_bound offset pe + offset)"

subsection \<open>BUStep and SHMEM\_BUStep\<close>

text \<open>The inner loop of both bottom-up steps: the first in-neighbour \<open>v\<close> with
  \<open>front.get_bit(v)\<close>, where the loop breaks; \<open>Some None\<close> when there is none.\<close>

fun first_in_front :: "Bitmap \<Rightarrow> nat list \<Rightarrow> nat option option" where
  "first_in_front front [] = Some None"
| "first_in_front front (v # vs) =
     (case get_bit front v of
        None \<Rightarrow> None
      | Some True \<Rightarrow> Some (Some v)
      | Some False \<Rightarrow> first_in_front front vs)"

text \<open>One round of the loop over \<open>u\<close>. The state is the parent array, the variable
  \<open>awake_count\<close> and the bitmap \<open>next\<close>. \<open>awake_count++\<close> adds one to the variable: in
  \<open>BUStep\<close> that is the \<open>int64_t\<close> counter, in \<open>SHMEM_BUStep\<close> it is the pointer
  \<open>long long* awake_count\<close>, an address counted in \<open>long long\<close>s. Both steps index the
  parent array with \<open>u\<close> itself.\<close>

definition BU_vertex ::
  "Graph \<Rightarrow> Bitmap \<Rightarrow> nat \<Rightarrow> int list \<times> nat \<times> Bitmap \<Rightarrow> (int list \<times> nat \<times> Bitmap) option" where
  "BU_vertex g front u s =
     (case s of (parent, awake_count, next) \<Rightarrow>
        do { pu \<leftarrow> rd parent u;
             if pu < 0 then
               do { vs \<leftarrow> in_neigh g u;
                    r \<leftarrow> first_in_front front vs;
                    case r of
                      None \<Rightarrow> Some (parent, awake_count, next)
                    | Some v \<Rightarrow>
                        do { parent' \<leftarrow> wr parent u (int v);
                             next' \<leftarrow> set_bit next u;
                             Some (parent', awake_count + 1, next') } }
             else Some (parent, awake_count, next) })"

text \<open>\<open>BUStep\<close>: the result is the counter, with the parent array and \<open>next\<close> as the step
  leaves them.\<close>

definition BUStep :: "Graph \<Rightarrow> int list \<Rightarrow> Bitmap \<Rightarrow> (int \<times> int list \<times> Bitmap) option" where
  "BUStep g parent front =
     do { (parent', awake_count, next) \<leftarrow>
            for_each (BU_vertex g front) [0..<num_nodes g]
              (parent, 0, Bitmap_reset (num_nodes g));
          Some (int awake_count, parent', next) }"

text \<open>The part of \<open>SHMEM_BUStep\<close> before \<open>next.merge\<close>, on PE \<open>pe\<close>. \<open>addr\<close> is the address
  \<open>shmem_malloc\<close> returned for \<open>awake_count\<close>; the result holds the pointer after the loop.\<close>

definition SHMEM_BUStep_local ::
  "Graph \<Rightarrow> int list \<Rightarrow> Bitmap \<Rightarrow> nat \<Rightarrow> nat \<Rightarrow> nat \<Rightarrow> (int list \<times> nat \<times> Bitmap) option" where
  "SHMEM_BUStep_local g parent front pe npes addr =
     do { parent_offset \<leftarrow> cpp_div (num_nodes g) npes;
          for_each (BU_vertex g front)
            [lower_bound parent_offset pe ..< upper_bound (num_nodes g) npes parent_offset pe]
            (parent, addr, Bitmap_reset (num_nodes g)) }"

text \<open>\<open>SHMEM_BUStep\<close> on all PEs. \<open>parents\<close> and \<open>fronts\<close> hold every PE's parent array and
  copy of \<open>front\<close>; \<open>heaps\<close> holds every PE's symmetric heap as a function from addresses
  (in \<open>long long\<close>s) to the values found there, which \<open>shmem_malloc\<close> does not initialise.
  The loops of the PEs touch disjoint data. \<open>next.merge\<close> leaves the OR of the copies on
  every PE; \<open>shmem_longlong_sum_to_all(awake_count, awake_count, 1, ...)\<close> adds up, over
  the PEs, the value each PE's pointer addresses, and \<open>return(*awake_count)\<close> returns that
  sum.\<close>

definition SHMEM_BUStep ::
  "Graph \<Rightarrow> int list list \<Rightarrow> Bitmap list \<Rightarrow> (nat \<Rightarrow> int) list \<Rightarrow> nat \<Rightarrow>
   (int \<times> int list list \<times> Bitmap) option" where
  "SHMEM_BUStep g parents fronts heaps addr =
     (let npes = length parents in
      do { rs \<leftarrow> those (map (\<lambda>pe. do { parent \<leftarrow> rd parents pe;
                                       front \<leftarrow> rd fronts pe;
                                       SHMEM_BUStep_local g parent front pe npes addr })
                          [0..<npes]);
           hs \<leftarrow> those (map (rd heaps) [0..<npes]);
           Some (sum_list (map (\<lambda>(h, (parent, awake_count, next)). h awake_count) (zip hs rs)),
                 map fst rs,
                 Bitmap_merge (map (\<lambda>(parent, awake_count, next). next) rs)) })"

subsection \<open>SHMEM\_TDStep\<close>

text \<open>The owner of a neighbour \<open>v\<close> outside the PE's own part, lines 151 to 157:
  \<open>foreign_pe = v / parent_offset\<close>; when that is \<open>npes\<close> or more the owner is the last PE
  and \<open>local_v = v - parent_offset * foreign_pe\<close>, else \<open>local_v = v % parent_offset\<close>.\<close>

definition TD_owner :: "nat \<Rightarrow> nat \<Rightarrow> nat \<Rightarrow> (nat \<times> nat) option" where
  "TD_owner v parent_offset npes =
     do { foreign_pe \<leftarrow> cpp_div v parent_offset;
          if foreign_pe \<ge> npes
          then Some (npes - 1, v - parent_offset * (npes - 1))
          else do { local_v \<leftarrow> cpp_mod v parent_offset; Some (foreign_pe, local_v) } }"

text \<open>\<open>shmem_int_atomic_compare_swap(dest, cond, value, pe)\<close> on the array \<open>xs\<close> of that PE:
  it returns the old value of the element and stores \<open>value\<close> when the old value is
  \<open>cond\<close>. \<open>shmem_int_atomic_swap\<close> stores unconditionally.\<close>

definition atomic_compare_swap :: "int list \<Rightarrow> nat \<Rightarrow> int \<Rightarrow> int \<Rightarrow> (int \<times> int list) option" where
  "atomic_compare_swap xs i cond v =
     do { old \<leftarrow> rd xs i; Some (old, if old = cond then xs[i := v] else xs) }"

text \<open>The symmetric heap of the BFS kernel: every PE's part of the parent array and
  the frontier queue with its lock. The locks \<open>PLOCKS\<close> bracket a get and a swap on one
  PE; a PE's loop runs here without another PE's in between, so they are always free
  when taken and are left out.\<close>

record bfs_heap =
  parents :: "int list list"
  frontier :: "nat pgas"

text \<open>The state of one PE's top-down loop: the heap, the PE's \<open>lqueue\<close> and \<open>*local_scout\<close>,
  a 32-bit \<open>int\<close>.\<close>

record td_state =
  td_heap :: bfs_heap
  lqueue :: "nat QueueBuffer"
  local_scout :: int

text \<open>\<open>lqueue.push_back(v); *local_scout += -curr_val;\<close> The sum is kept in 32 bits.\<close>

definition td_push :: "nat \<Rightarrow> nat \<Rightarrow> int \<Rightarrow> td_state \<Rightarrow> td_state option" where
  "td_push pe v curr_val s =
     do { (b, q) \<leftarrow> qb_push_back pe (lqueue s) v (frontier (td_heap s));
          Some (s\<lparr>td_heap := (td_heap s)\<lparr>frontier := q\<rparr>, lqueue := b,
                  local_scout := to_int32 (local_scout s + (- curr_val))\<rparr>) }"

text \<open>The body of \<open>for (NodeID v : g.out_neigh(u))\<close>.\<close>

definition TD_neighbor ::
  "nat \<Rightarrow> nat \<Rightarrow> nat \<Rightarrow> nat \<Rightarrow> nat \<Rightarrow> nat \<Rightarrow> nat \<Rightarrow> td_state \<Rightarrow> td_state option" where
  "TD_neighbor pe npes parent_offset lb ub u v s =
     (if v \<ge> lb \<and> v < ub then
        do { parent \<leftarrow> rd (parents (td_heap s)) pe;
             curr_val \<leftarrow> rd parent (v - lb);
             if curr_val < 0 then
               do { (old, parent') \<leftarrow> atomic_compare_swap parent (v - lb) curr_val (int u);
                    let s1 = s\<lparr>td_heap := (td_heap s)\<lparr>parents := (parents (td_heap s))[pe := parent']\<rparr>\<rparr>;
                    if old \<noteq> 0 then td_push pe v curr_val s1 else Some s1 }
             else Some s }
      else
        do { (foreign_pe, local_v) \<leftarrow> TD_owner v parent_offset npes;
             parent \<leftarrow> rd (parents (td_heap s)) foreign_pe;
             curr_val \<leftarrow> rd parent local_v;
             if curr_val < 0 then
               td_push pe v curr_val
                 (s\<lparr>td_heap := (td_heap s)\<lparr>parents :=
                        (parents (td_heap s))[foreign_pe := parent[local_v := int u]]\<rparr>\<rparr>)
             else Some s })"

text \<open>The body of \<open>while (q_iter < q_end)\<close> for the queue position \<open>k\<close>, counted from
  \<open>queue.begin()\<close> as the \<open>int\<close> the source adds to the iterator: \<open>u\<close> is read from PE
  \<open>pe\<close>'s copy of the queue when the round starts.\<close>

definition TD_vertex ::
  "Graph \<Rightarrow> nat \<Rightarrow> nat \<Rightarrow> nat \<Rightarrow> nat \<Rightarrow> nat \<Rightarrow> int \<Rightarrow> td_state \<Rightarrow> td_state option" where
  "TD_vertex g pe npes parent_offset lb ub k s =
     do { q \<leftarrow> rd (queues (frontier (td_heap s))) pe;
          u \<leftarrow> (if 0 \<le> int (shared_out_start q) + k
                 then rd (shared q) (nat (int (shared_out_start q) + k)) else None);
          vs \<leftarrow> out_neigh g u;
          for_each (TD_neighbor pe npes parent_offset lb ub u) vs s }"

text \<open>\<open>SHMEM_TDStep\<close> on PE \<open>pe\<close> up to and with \<open>lqueue.flush()\<close>. \<open>junk\<close> is what the fresh
  \<open>local_queue\<close> of \<open>lqueue\<close> holds (its length is \<open>local_size\<close>, 16384 in the source),
  \<open>behind\<close> what the heap holds behind it and \<open>scout0\<close> what the fresh \<open>*local_scout\<close>
  holds: \<open>shmem_malloc\<close> and \<open>new\<close> initialise none of them. \<open>queue_offset\<close>, \<open>start\<close> and
  \<open>end\<close> are \<open>int\<close>s that take \<open>size_t\<close> values. The result is the heap and
  \<open>*local_scout\<close>.\<close>

definition SHMEM_TDStep_local ::
  "Graph \<Rightarrow> nat \<Rightarrow> nat \<Rightarrow> nat list \<Rightarrow> (nat \<Rightarrow> nat) \<Rightarrow> int \<Rightarrow> bfs_heap \<Rightarrow> (bfs_heap \<times> int) option" where
  "SHMEM_TDStep_local g pe npes junk behind scout0 h =
     do { q \<leftarrow> rd (queues (frontier h)) pe;
          size_per_pe \<leftarrow> cpp_div (sq_size q) npes;
          let queue_offset = to_int32 (int size_per_pe);
          parent_offset \<leftarrow> cpp_div (num_nodes g) npes;
          let lb = lower_bound parent_offset pe;
          let start = queue_offset * int pe;
          let end = (if pe + 1 = npes then to_int32 (int (sq_size q)) else start + queue_offset);
          let ub = upper_bound (num_nodes g) npes parent_offset pe;
          s \<leftarrow> for_each (TD_vertex g pe npes parent_offset lb ub) [start..end - 1]
                 \<lparr>td_heap = h, lqueue = \<lparr>inq = 0, local_queue = junk, heap_after = behind\<rparr>,
                  local_scout = to_int32 scout0\<rparr>;
          (b, f) \<leftarrow> flush pe (lqueue s) (frontier (td_heap s));
          Some ((td_heap s)\<lparr>frontier := f\<rparr>, local_scout s) }"

text \<open>\<open>SHMEM_TDStep\<close> on all PEs, the loops taken in the order of the ranks (one of the
  orders the locks and atomics allow; with one PE the only one). \<open>fresh\<close> gives every PE
  its \<open>junk\<close>, \<open>behind\<close> and \<open>scout0\<close>. \<open>shmem_int_sum_to_all\<close> adds up the PEs'
  \<open>*local_scout\<close> in the 32-bit \<open>*scout_count\<close>; the sum, cast to \<open>int64_t\<close>, is what every
  PE returns.\<close>

definition SHMEM_TDStep ::
  "Graph \<Rightarrow> (nat list \<times> (nat \<Rightarrow> nat) \<times> int) list \<Rightarrow> bfs_heap \<Rightarrow> (int \<times> bfs_heap) option" where
  "SHMEM_TDStep g fresh h =
     (let npes = length fresh in
      do { (h', scouts) \<leftarrow>
             for_each (\<lambda>pe (h, scouts).
                 do { (junk, behind, scout0) \<leftarrow> rd fresh pe;
                      (h', sc) \<leftarrow> SHMEM_TDStep_local g pe npes junk behind scout0 h;
                      Some (h', scouts @ [sc]) })
               [0..<npes] (h, []);
           Some (to_int32 (sum_list scouts), h') })"

subsection \<open>QueueToBitmap, BitmapToQueue, InitParent\<close>

definition QueueToBitmap :: "nat SlidingQueue \<Rightarrow> Bitmap \<Rightarrow> Bitmap option" where
  "QueueToBitmap queue bm =
     do { us \<leftarrow> sq_window queue;
          for_each (\<lambda>u bm. set_bit bm u) us bm }"

text \<open>The loop of \<open>BitmapToQueue\<close> over the vertices \<open>ns\<close> of the PE's part.\<close>

definition push_set_bits ::
  "Bitmap \<Rightarrow> nat \<Rightarrow> nat list \<Rightarrow> nat QueueBuffer \<times> nat pgas \<Rightarrow> (nat QueueBuffer \<times> nat pgas) option" where
  "push_set_bits bm pe ns =
     for_each (\<lambda>n (b, q). do { bit \<leftarrow> get_bit bm n;
                                if bit then qb_push_back pe b n q else Some (b, q) }) ns"

text \<open>\<open>BitmapToQueue\<close> on PE \<open>pe\<close>; \<open>junk\<close> is the fresh \<open>local_queue\<close> and \<open>behind\<close> what the
  heap holds behind it. The last statement, \<open>queue.slide_window()\<close>, is on the PE's own
  copy of the queue.\<close>

definition BitmapToQueue ::
  "Graph \<Rightarrow> Bitmap \<Rightarrow> nat pgas \<Rightarrow> nat \<Rightarrow> nat \<Rightarrow> nat list \<Rightarrow> (nat \<Rightarrow> nat) \<Rightarrow> nat pgas option" where
  "BitmapToQueue g bm queue pe npes junk behind =
     do { offset \<leftarrow> cpp_div (num_nodes g) npes;
          (b, q) \<leftarrow> push_set_bits bm pe
                     [lower_bound offset pe ..< upper_bound (num_nodes g) npes offset pe]
                     (\<lparr>inq = 0, local_queue = junk, heap_after = behind\<rparr>, queue);
          (b', q') \<leftarrow> flush pe b q;
          own \<leftarrow> rd (queues q') pe;
          Some (q'\<lparr>queues := (queues q')[pe := slide_window own]\<rparr>) }"

text \<open>\<open>InitParent\<close> on PE \<open>pe\<close>. \<open>fresh\<close> is the new \<open>pvector<NodeID> parent(max_size, true)\<close>
  before the loop writes it; \<open>pvector.h\<close> is not among the sources, and only the first
  \<open>end - start\<close> elements are written. The source tests \<open>source <= end\<close>.\<close>

definition InitParent :: "Graph \<Rightarrow> nat \<Rightarrow> nat \<Rightarrow> nat \<Rightarrow> int list \<Rightarrow> int list option" where
  "InitParent g source pe npes fresh =
     do { offset \<leftarrow> cpp_div (num_nodes g) npes;
          let max_size = num_nodes g - (npes - 1) * offset;
          let start = offset * pe;
          let end = (if pe + 1 = npes then num_nodes g else start + offset);
          parent \<leftarrow> for_each (\<lambda>n parent.
                        do { d \<leftarrow> out_degree g n;
                             wr parent (n - start) (if d \<noteq> 0 then - d else - 1) })
                      [start..<end] (take max_size fresh);
          if source \<ge> start \<and> source \<le> end
          then wr parent (source - start) (int source)
          else Some parent }"

subsection \<open>DOBFS\<close>

text \<open>What \<open>PrintStep\<close> writes to standard output, without the times.\<close>

datatype event = PrintStep string "int option"

text \<open>The values the kernel meets in memory it did not initialise: the fresh parent array
  of every PE and, for the round \<open>k\<close> of the outer loop on the PE \<open>p\<close>, the fresh
  \<open>local_queue\<close> of the round's queue buffer, the heap behind it and the fresh
  \<open>*local_scout\<close>.\<close>

record env =
  fresh_parent :: "nat \<Rightarrow> int list"
  fresh_queue :: "nat \<Rightarrow> nat \<Rightarrow> nat list"
  fresh_behind :: "nat \<Rightarrow> nat \<Rightarrow> nat \<Rightarrow> nat"
  fresh_scout :: "nat \<Rightarrow> nat \<Rightarrow> int"

text \<open>The variables of \<open>DOBFS\<close> on one PE: its copies of the bitmaps \<open>front\<close> and \<open>curr\<close>,
  \<open>edges_to_check\<close>, \<open>scout_count\<close> and what it has printed. The state of the outer loop
  on a PE is the symmetric heap with the PE's variables.\<close>

record pe_vars =
  front_bm :: Bitmap
  curr_bm :: Bitmap
  edges_to_check :: int
  scout_count :: int
  out_log :: "event list"

text \<open>The \<open>do ... while\<close> loop of the bottom-up branch. One round: \<open>old_awake_count\<close>
  takes \<open>awake_count\<close>, \<open>BUStep\<close> runs on \<open>front\<close> and \<open>curr\<close>, the bitmaps are swapped, the
  count is printed, and the loop goes on while
  \<open>awake_count >= old_awake_count || awake_count > g.num_nodes() / beta\<close>; the division
  is evaluated only when the first test fails. \<open>bu_round\<close> is one round with the value of
  the loop condition.\<close>

definition bu_round ::
  "Graph \<Rightarrow> int \<Rightarrow> int \<Rightarrow> int list \<times> Bitmap \<times> Bitmap \<times> event list \<Rightarrow>
   (bool \<times> int \<times> int list \<times> Bitmap \<times> Bitmap \<times> event list) option" where
  "bu_round g beta awake_count s =
     (case s of (parent, front, curr_b, out) \<Rightarrow>
        do { let old_awake_count = awake_count;
             (awake_count', parent', next) \<leftarrow> BUStep g parent front;
             let s' = (parent', next, front, out @ [PrintStep ''bu'' (Some awake_count')]);
             if awake_count' \<ge> old_awake_count then Some (True, awake_count', s')
             else do { bound \<leftarrow> cpp_sdiv (int (num_nodes g)) beta;
                       Some (awake_count' > bound, awake_count', s') } })"

partial_function (option) bu_loop ::
  "Graph \<Rightarrow> int \<Rightarrow> int \<Rightarrow> int list \<times> Bitmap \<times> Bitmap \<times> event list \<Rightarrow>
   (int \<times> int list \<times> Bitmap \<times> Bitmap \<times> event list) option" where
  "bu_loop g beta awake_count s =
     do { (again, awake_count', s') \<leftarrow> bu_round g beta awake_count s;
          if again then bu_loop g beta awake_count' s' else Some (awake_count', s') }"

declare bu_loop.simps [code]

text \<open>The bottom-up branch of round \<open>k\<close> as PE \<open>pe\<close> of \<open>npes\<close> runs it, on its own parent
  array, queue copy and bitmaps: \<open>QueueToBitmap\<close>, \<open>awake_count = frontier->size()\<close>,
  \<open>slide_window\<close>, the loop, \<open>BitmapToQueue\<close> with the PE's \<open>pe\<close> and \<open>npes\<close>, and
  \<open>scout_count = 1\<close>. \<open>BUStep\<close> indexes the PE's parent array with the vertex.\<close>

definition BU_branch ::
  "Graph \<Rightarrow> env \<Rightarrow> int \<Rightarrow> nat \<Rightarrow> nat \<Rightarrow> nat \<Rightarrow> bfs_heap \<times> pe_vars \<Rightarrow> (bfs_heap \<times> pe_vars) option" where
  "BU_branch g e beta k pe npes st =
     (case st of (h, v) \<Rightarrow>
        do { parent \<leftarrow> rd (parents h) pe;
             q \<leftarrow> rd (queues (frontier h)) pe;
             front1 \<leftarrow> QueueToBitmap q (front_bm v);
             let out1 = out_log v @ [PrintStep ''e'' None];
             let awake_count = to_int64 (int (sq_size q));
             let fr = (frontier h)\<lparr>queues := (queues (frontier h))[pe := slide_window q]\<rparr>;
             (awake_count', parent', front2, curr2, out2) \<leftarrow>
                bu_loop g beta awake_count (parent, front1, curr_bm v, out1);
             fr' \<leftarrow> BitmapToQueue g front2 fr pe npes (fresh_queue e k pe) (fresh_behind e k pe);
             Some (\<lparr>parents = (parents h)[pe := parent'], frontier = fr'\<rparr>,
                   v\<lparr>front_bm := front2, curr_bm := curr2, scout_count := 1,
                     out_log := out2 @ [PrintStep ''c'' None]\<rparr>) })"

text \<open>The top-down branch. \<open>SHMEM_TDStep\<close> is a collective: all \<open>npes\<close> PEs run it, and its
  reduction gives every PE the same count. What follows it on PE \<open>pe\<close> is \<open>TD_finish\<close>:
  the count becomes \<open>scout_count\<close>, the PE's window slides and its size is printed.
  \<open>edges_to_check -= scout_count\<close> comes before the step.\<close>

definition TD_fresh :: "env \<Rightarrow> nat \<Rightarrow> nat \<Rightarrow> (nat list \<times> (nat \<Rightarrow> nat) \<times> int) list" where
  "TD_fresh e k npes = map (\<lambda>p. (fresh_queue e k p, fresh_behind e k p, fresh_scout e k p)) [0..<npes]"

definition TD_finish :: "nat \<Rightarrow> int \<Rightarrow> bfs_heap \<times> pe_vars \<Rightarrow> (bfs_heap \<times> pe_vars) option" where
  "TD_finish pe sc st =
     (case st of (h, v) \<Rightarrow>
        do { q \<leftarrow> rd (queues (frontier h)) pe;
             let q' = slide_window q;
             Some (h\<lparr>frontier := (frontier h)\<lparr>queues := (queues (frontier h))[pe := q']\<rparr>\<rparr>,
                   v\<lparr>edges_to_check := edges_to_check v - scout_count v, scout_count := sc,
                     out_log := out_log v @ [PrintStep ''td'' (Some (to_int64 (int (sq_size q'))))]\<rparr>) })"


text \<open>The test of the outer loop's \<open>if\<close> on a PE, and round \<open>k\<close> of
  \<open>while (!frontier->empty())\<close> as PE \<open>pe\<close> of \<open>npes\<close> runs it.\<close>

definition bottom_up_next :: "int \<Rightarrow> pe_vars \<Rightarrow> bool option" where
  "bottom_up_next alpha v =
     do { bound \<leftarrow> cpp_sdiv (edges_to_check v) alpha; Some (scout_count v > bound) }"


text \<open>The kernel on all PEs. The state is the heap, every PE's variables and, for every
  PE, whether it has left the outer loop. In a round every PE still in the loop tests its
  own copy of the queue and leaves when the window is empty. The others take the branch
  their variables choose: the bottom-up branch has no collective and the PEs run it one
  after the other in the order of the ranks; the top-down branch needs every PE of the
  job in the reduction of \<open>SHMEM_TDStep\<close>, so it has no result when a PE has left or
  chooses the other branch.\<close>

definition on_pe ::
  "(bfs_heap \<times> pe_vars \<Rightarrow> (bfs_heap \<times> pe_vars) option) \<Rightarrow> nat \<Rightarrow>
   bfs_heap \<times> pe_vars list \<Rightarrow> (bfs_heap \<times> pe_vars list) option" where
  "on_pe f p st =
     do { v \<leftarrow> rd (snd st) p;
          (h', v') \<leftarrow> f (fst st, v);
          Some (h', (snd st)[p := v']) }"

definition leave_loop :: "bfs_heap \<Rightarrow> bool list \<Rightarrow> bool list option" where
  "leave_loop h left =
     those (map (\<lambda>p. do { l \<leftarrow> rd left p;
                          q \<leftarrow> rd (queues (frontier h)) p;
                          Some (l \<or> sq_empty q) }) [0..<length left])"

definition DOBFS_rounds ::
  "Graph \<Rightarrow> env \<Rightarrow> int \<Rightarrow> int \<Rightarrow> nat \<Rightarrow> bool list \<Rightarrow> bfs_heap \<times> pe_vars list \<Rightarrow>
   (bfs_heap \<times> pe_vars list) option" where
  "DOBFS_rounds g e alpha beta k left st =
     (let npes = length left; running = filter (\<lambda>p. \<not> left ! p) [0..<npes] in
      do { bus \<leftarrow> those (map (\<lambda>p. do { v \<leftarrow> rd (snd st) p; bottom_up_next alpha v }) running);
           if list_all id bus
           then for_each (\<lambda>p. on_pe (BU_branch g e beta k p npes) p) running st
           else if list_all Not bus \<and> length running = npes
           then do { (sc, h1) \<leftarrow> SHMEM_TDStep g (TD_fresh e k npes) (fst st);
                     for_each (\<lambda>p. on_pe (TD_finish p sc) p) running (h1, snd st) }
           else None })"

partial_function (option) DOBFS_loop ::
  "Graph \<Rightarrow> env \<Rightarrow> int \<Rightarrow> int \<Rightarrow> nat \<Rightarrow> bool list \<Rightarrow> bfs_heap \<times> pe_vars list \<Rightarrow>
   (bfs_heap \<times> pe_vars list) option" where
  "DOBFS_loop g e alpha beta k left st =
     (case leave_loop (fst st) left of
        None \<Rightarrow> None
      | Some left' \<Rightarrow>
          if list_all id left' then Some st
          else (case DOBFS_rounds g e alpha beta k left' st of
                  None \<Rightarrow> None
                | Some st' \<Rightarrow> DOBFS_loop g e alpha beta (k + 1) left' st'))"

declare DOBFS_loop.simps [code]

text \<open>The loop after the outer loop: \<open>if (parent[n] < -1) parent[n] = -1\<close> for every
  \<open>n\<close> below \<open>num_nodes\<close>, on the PE's parent array.\<close>

definition reset_unvisited :: "nat \<Rightarrow> int list \<Rightarrow> int list option" where
  "reset_unvisited n parent =
     for_each (\<lambda>n parent. do { p \<leftarrow> rd parent n;
                               if p < - 1 then wr parent n (- 1) else Some parent })
       [0..<n] parent"

text \<open>The statements before the outer loop, on every PE of \<open>npes\<close>: \<open>InitParent\<close> with the
  PE's number, the queue of capacity \<open>num_nodes\<close> with the source pushed and the window
  slid, the two bitmaps reset, \<open>edges_to_check\<close> and \<open>scout_count\<close>.\<close>

definition DOBFS_init :: "Graph \<Rightarrow> nat \<Rightarrow> env \<Rightarrow> nat \<Rightarrow> (bfs_heap \<times> pe_vars list) option" where
  "DOBFS_init g source e npes =
     do { ps \<leftarrow> those (map (\<lambda>p. InitParent g source p npes (fresh_parent e p)) [0..<npes]);
          q \<leftarrow> sq_push_back (SlidingQueue_new (num_nodes g)) source;
          d \<leftarrow> out_degree g source;
          Some (\<lparr>parents = ps,
                 frontier = \<lparr>queues = replicate npes (slide_window q), QLOCK = False\<rparr>\<rparr>,
                replicate npes
                  \<lparr>front_bm = Bitmap_reset (num_nodes g), curr_bm = Bitmap_reset (num_nodes g),
                   edges_to_check = num_edges_directed g, scout_count = d,
                   out_log = [PrintStep ''Source'' (Some (int source)), PrintStep ''i'' None]\<rparr>) }"

text \<open>\<open>DOBFS\<close> on \<open>npes\<close> PEs: every PE's parent array after its last loop, and what every PE
  has printed.\<close>

definition DOBFS ::
  "Graph \<Rightarrow> nat \<Rightarrow> env \<Rightarrow> nat \<Rightarrow> int \<Rightarrow> int \<Rightarrow> (int list list \<times> event list list) option" where
  "DOBFS g source e npes alpha beta =
     do { st0 \<leftarrow> DOBFS_init g source e npes;
          (h, vs) \<leftarrow> DOBFS_loop g e alpha beta 0 (replicate npes False) st0;
          ps \<leftarrow> those (map (reset_unvisited (num_nodes g)) (parents h));
          Some (ps, map out_log vs) }"

section \<open>tc.cc\<close>

text \<open>Modelled from the spec: the header that declares \<open>Partition\<close> is not among the sources.
  Section 3 of the specification has \<open>Partition(n, N)\<close> with
  \<open>partition_width = n / N\<close> (rounded down), \<open>max_width = n - (N - 1) * partition_width\<close>,
  \<open>start(p) = p * partition_width\<close>, and \<open>end(p) = start(p) + partition_width\<close> for
  \<open>p < N - 1\<close>, else \<open>n\<close>; \<open>owner(x)\<close> is the smaller of \<open>x / partition_width\<close> and \<open>N - 1\<close>,
  and \<open>local_pos(x) = x - owner(x) * partition_width\<close>. The fields are those the sources
  read (\<open>vp.start\<close>, \<open>vp.end\<close>, \<open>vp.pe\<close>, \<open>vp.npes\<close>, \<open>vp.max_width\<close>, \<open>vp.partition_width\<close>). A
  group has at least one PE.\<close>

record Partition =
  vp_pe :: nat
  vp_npes :: nat
  vp_start :: nat
  vp_end :: nat
  vp_partition_width :: nat
  vp_max_width :: nat

definition Partition_new :: "nat \<Rightarrow> nat \<Rightarrow> nat \<Rightarrow> Partition option" where
  "Partition_new n pe npes =
     (if npes = 0 then None
      else let w = n div npes in
        Some \<lparr>vp_pe = pe, vp_npes = npes, vp_start = pe * w,
              vp_end = (if pe + 1 < npes then pe * w + w else n),
              vp_partition_width = w, vp_max_width = n - (npes - 1) * w\<rparr>)"

definition vp_recv :: "Partition \<Rightarrow> nat \<Rightarrow> nat option" where
  "vp_recv vp x = do { q \<leftarrow> cpp_div x (vp_partition_width vp); Some (min q (vp_npes vp - 1)) }"

definition vp_local_pos :: "Partition \<Rightarrow> nat \<Rightarrow> nat option" where
  "vp_local_pos vp x = do { owner \<leftarrow> vp_recv vp x; Some (x - owner * vp_partition_width vp) }"

subsection \<open>OrderedCount\<close>

text \<open>\<open>while (*it < w) it++\<close>: the iterator \<open>it\<close> into \<open>g.out_neigh(u)\<close> is the list of the
  elements from its position on; reading \<open>*it\<close> at the end of the list has no result.\<close>

fun advance :: "nat list \<Rightarrow> nat \<Rightarrow> nat list option" where
  "advance [] w = None"
| "advance (x # xs) w = (if x < w then advance xs w else Some (x # xs))"

text \<open>The loop \<open>for (NodeID w : g.out_neigh(v))\<close> over the neighbours \<open>ws\<close> of \<open>v\<close> still to
  come, with the iterator \<open>it\<close> and \<open>*total\<close> (\<open>tot\<close>).\<close>

fun count_w :: "nat list \<Rightarrow> nat \<Rightarrow> nat list \<Rightarrow> nat \<Rightarrow> nat option" where
  "count_w [] v it tot = Some tot"
| "count_w (w # ws) v it tot =
     (if w > v then Some tot
      else case advance it w of
             None \<Rightarrow> None
           | Some it' \<Rightarrow> count_w ws v it' (if w = hd it' then tot + 1 else tot))"

text \<open>The loop \<open>for (NodeID v : g.out_neigh(u))\<close> over the neighbours \<open>vs\<close> of \<open>u\<close> still to
  come; \<open>nu\<close> is \<open>g.out_neigh(u)\<close>, where \<open>it\<close> starts for every \<open>v\<close>.\<close>

fun count_v :: "Graph \<Rightarrow> nat \<Rightarrow> nat list \<Rightarrow> nat list \<Rightarrow> nat \<Rightarrow> nat option" where
  "count_v g u [] nu tot = Some tot"
| "count_v g u (v # vs) nu tot =
     (if v > u then Some tot
      else case out_neigh g v of
             None \<Rightarrow> None
           | Some nv \<Rightarrow>
               (case count_w nv v nu tot of
                  None \<Rightarrow> None
                | Some tot' \<Rightarrow> count_v g u vs nu tot'))"

definition count_u :: "Graph \<Rightarrow> nat \<Rightarrow> nat \<Rightarrow> nat option" where
  "count_u g u tot = do { nu \<leftarrow> out_neigh g u; count_v g u nu nu tot }"

text \<open>\<open>OrderedCount\<close> on one PE before the reduction (\<open>*total\<close> starts at 0,
  \<open>shmem_calloc\<close>), and on all PEs: \<open>shmem_long_sum_to_all\<close> adds up the PEs' totals. The
  PEs only read the graph.\<close>

definition OrderedCount_local :: "Graph \<Rightarrow> Partition \<Rightarrow> nat option" where
  "OrderedCount_local g vp = for_each (count_u g) [vp_start vp ..< vp_end vp] 0"

definition OrderedCount :: "Graph \<Rightarrow> nat \<Rightarrow> nat option" where
  "OrderedCount g npes =
     do { totals \<leftarrow> those (map (\<lambda>pe. do { vp \<leftarrow> Partition_new (num_nodes g) pe npes;
                                           OrderedCount_local g vp })
                              [0..<npes]);
          if npes = 0 then None else Some (sum_list totals) }"

text \<open>The reference of section 8: the number of vertex triples \<open>a < b < c\<close> that are
  pairwise adjacent, by enumeration.\<close>

definition adjacent :: "Graph \<Rightarrow> nat \<Rightarrow> nat \<Rightarrow> bool" where
  "adjacent g a b = (a < num_nodes g \<and> b \<in> set (out_neighs g ! a))"

definition brute_force_triangles :: "Graph \<Rightarrow> nat" where
  "brute_force_triangles g =
     length (filter (\<lambda>(a, b, c). a < b \<and> b < c \<and> adjacent g a b \<and> adjacent g b c \<and> adjacent g a c)
               (List.product [0..<num_nodes g]
                  (List.product [0..<num_nodes g] [0..<num_nodes g])))"

text \<open>The graphs the builder hands to the kernel: every vertex has a neighbour list,
  the lists hold vertex ids, are strictly increasing and free of self-loops
  (squished), and the graph is undirected.\<close>

definition squished :: "Graph \<Rightarrow> bool" where
  "squished g =
     (length (out_neighs g) = num_nodes g \<and>
      list_all (\<lambda>u. sorted_wrt (<) (out_neighs g ! u) \<and>
                     list_all (\<lambda>v. v < num_nodes g \<and> v \<noteq> u) (out_neighs g ! u))
               [0..<num_nodes g])"

definition undirected :: "Graph \<Rightarrow> bool" where
  "undirected g =
     list_all (\<lambda>u. list_all (\<lambda>v. u \<in> set (out_neighs g ! v)) (out_neighs g ! u))
              [0..<num_nodes g]"

definition K3 :: Graph where
  "K3 = \<lparr>num_nodes = 3, out_neighs = [[1, 2], [0, 2], [0, 1]],
          in_neighs = [[1, 2], [0, 2], [0, 1]], num_edges_directed = 6\<rparr>"

definition K4 :: Graph where
  "K4 = \<lparr>num_nodes = 4, out_neighs = [[1, 2, 3], [0, 2, 3], [0, 1, 3], [0, 1, 2]],
          in_neighs = [[1, 2, 3], [0, 2, 3], [0, 1, 3], [0, 1, 2]], num_edges_directed = 12\<rparr>"

section \<open>builder.h\<close>

subsection \<open>ParallelPrefixSum\<close>

text \<open>The loop \<open>prefix[i] = local_total; local_total += degrees[i]\<close> (and the same loop
  over blocks): the running totals before each element, from \<open>t\<close>.\<close>

fun running :: "nat \<Rightarrow> nat list \<Rightarrow> nat list" where
  "running t [] = []"
| "running t (d # ds) = t # running (t + d) ds"

definition block_size :: nat where
  "block_size = 2 ^ 20"

text \<open>\<open>ParallelPrefixSum\<close>: the sums of the blocks of \<open>block_size\<close> elements, the running
  totals \<open>bulk_prefix\<close> of those sums, and in every block the running totals from the
  block's \<open>bulk_prefix\<close>; the last element is \<open>bulk_prefix[num_blocks]\<close>. \<open>PrefixSum\<close> is the
  plain loop.\<close>

definition ParallelPrefixSum :: "nat list \<Rightarrow> nat list" where
  "ParallelPrefixSum degrees =
     (let num_blocks = (length degrees + block_size - 1) div block_size;
          block = (\<lambda>b. take block_size (drop (b * block_size) degrees));
          local_sums = map (\<lambda>b. sum_list (block b)) [0..<num_blocks];
          bulk_prefix = running 0 local_sums @ [sum_list local_sums]
      in concat (map (\<lambda>b. running (bulk_prefix ! b) (block b)) [0..<num_blocks])
         @ [bulk_prefix ! num_blocks])"

definition PrefixSum :: "nat list \<Rightarrow> nat list" where
  "PrefixSum degrees = running 0 degrees @ [sum_list degrees]"

subsection \<open>SquishCSR\<close>

text \<open>What \<open>std::sort\<close>, \<open>std::unique\<close> and \<open>std::remove(n_start, new_end, n)\<close> leave in the
  first \<open>new_end - n_start\<close> places of the neighbour range of vertex \<open>n\<close>. \<open>eq_node e n\<close> is
  the comparison \<open>e == n\<close> of a \<open>DestID_\<close> with a node id: equality when \<open>DestID_\<close> is
  \<open>NodeID_\<close>, as in \<open>Builder\<close>.\<close>

definition squish_neighbors :: "('a \<Rightarrow> nat \<Rightarrow> bool) \<Rightarrow> nat \<Rightarrow> 'a::linorder list \<Rightarrow> 'a list" where
  "squish_neighbors eq_node n xs = filter (\<lambda>e. \<not> eq_node e n) (remdups_adj (sort xs))"

text \<open>Modelled from the spec: \<open>graph.h\<close> (\<open>CSRGraph\<close>, \<open>GenIndex\<close>) is not among the sources.
  Section 3 has each half of a CSR graph carry an \<open>index\<close> array and a \<open>neighs\<close> array, the
  index built from the offsets; the neighbour list of the local vertex \<open>i\<close> is
  \<open>neighs\<close> from \<open>index[i]\<close> up to \<open>index[i+1]\<close>. One PE's half: \<open>csr_index\<close> holds the
  offsets.\<close>

record 'a CSR =
  csr_index :: "nat list"
  csr_neighs :: "'a list"

definition GenIndex :: "nat list \<Rightarrow> 'a list \<Rightarrow> 'a CSR" where
  "GenIndex offsets neighs = \<lparr>csr_index = offsets, csr_neighs = neighs\<rparr>"

definition csr_neigh :: "'a CSR \<Rightarrow> nat \<Rightarrow> 'a list option" where
  "csr_neigh c i =
     do { a \<leftarrow> rd (csr_index c) i;
          b \<leftarrow> rd (csr_index c) (i + 1);
          if a \<le> b \<and> b \<le> length (csr_neighs c)
          then Some (take (b - a) (drop a (csr_neighs c))) else None }"

text \<open>The first loop of \<open>SquishCSR\<close> on the PE of \<open>vp\<close>. \<open>nbrs\<close> holds the neighbour ranges
  of the PE's vertices (\<open>g.out_neigh(n)\<close> or \<open>g.in_neigh(n)\<close>, at position
  \<open>vp.local_pos(n)\<close>), which the loop rewrites in place, and \<open>diffs\<close> starts as whatever
  the fresh \<open>pvector<NodeID_> diffs(vp.max_width)\<close> holds.\<close>

definition squish_sort ::
  "('a \<Rightarrow> nat \<Rightarrow> bool) \<Rightarrow> Partition \<Rightarrow> 'a::linorder list list \<Rightarrow> nat list \<Rightarrow>
   ('a list list \<times> nat list) option" where
  "squish_sort eq_node vp nbrs fresh_diffs =
     for_each (\<lambda>n (nbrs, diffs).
         do { indx \<leftarrow> vp_local_pos vp n;
              xs \<leftarrow> rd nbrs indx;
              let ys = squish_neighbors eq_node n xs;
              diffs' \<leftarrow> wr diffs indx (length ys);
              Some (nbrs[indx := ys], diffs') })
       [vp_start vp ..< vp_end vp] (nbrs, take (vp_max_width vp) fresh_diffs)"

text \<open>The second loop: \<open>std::copy(n_start, n_start + diffs[indx], (*sq_index)[indx])\<close>.\<close>

definition squish_copy ::
  "Partition \<Rightarrow> 'a list list \<Rightarrow> nat list \<Rightarrow> 'a CSR \<Rightarrow> 'a CSR option" where
  "squish_copy vp nbrs diffs c =
     for_each (\<lambda>n c.
         do { indx \<leftarrow> vp_local_pos vp n;
              xs \<leftarrow> rd nbrs indx;
              d \<leftarrow> rd diffs indx;
              a \<leftarrow> rd (csr_index c) indx;
              if d \<le> length xs
              then do { s \<leftarrow> write_range (csr_neighs c) a (take d xs);
                        Some (c\<lparr>csr_neighs := s\<rparr>) }
              else None })
       [vp_start vp ..< vp_end vp] c"

text \<open>\<open>SquishCSR\<close> on all PEs. \<open>nbrs\<close> and \<open>fresh\<close> hold every PE's neighbour ranges and
  fresh \<open>diffs\<close>. Every PE runs the first loop and \<open>ParallelPrefixSum\<close>;
  \<open>shmem_long_max_to_all\<close> gives every PE the largest of the PEs'
  \<open>sq_offsets[vp.end - vp.start]\<close>; every PE allocates that many zeroed elements (when
  \<open>shmem_calloc\<close> returns a null pointer, \<open>room = False\<close>, the job exits), builds the index
  and runs the second loop. The result is every PE's half of the squished graph.\<close>

definition SquishCSR ::
  "('a \<Rightarrow> nat \<Rightarrow> bool) \<Rightarrow> nat \<Rightarrow> bool \<Rightarrow> 'a::{linorder,zero} list list list \<Rightarrow> nat list list \<Rightarrow>
   'a CSR list option" where
  "SquishCSR eq_node n room nbrs fresh =
     (let npes = length nbrs in
      do { sorted \<leftarrow> those (map (\<lambda>pe.
               do { vp \<leftarrow> Partition_new n pe npes;
                    nb \<leftarrow> rd nbrs pe;
                    fr \<leftarrow> rd fresh pe;
                    (nb', diffs) \<leftarrow> squish_sort eq_node vp nb fr;
                    let sq_offsets = ParallelPrefixSum diffs;
                    total \<leftarrow> rd sq_offsets (vp_end vp - vp_start vp);
                    Some (vp, nb', diffs, sq_offsets, total) })
             [0..<npes]);
           let max_neigh = foldr max (map (\<lambda>(vp, nb', diffs, sq_offsets, total). total) sorted) 0;
           if \<not> room then None
           else those (map (\<lambda>(vp, nb', diffs, sq_offsets, total).
                   squish_copy vp nb' diffs (GenIndex sq_offsets (replicate max_neigh 0)))
                 sorted) })"

section \<open>Auxiliary definitions of the proofs\<close>

subsection \<open>Conditions, invariants and the specification's exit test\<close>

text \<open>When a flush has a result: the lock is free, the caller is a PE, the buffer holds at
  most \<open>local_size\<close> items, the staged items fit behind the caller's \<open>shared_in\<close> in its own
  array, and on every other PE the words of the put fit behind the same index.\<close>

definition flush_defined :: "nat \<Rightarrow> 'a QueueBuffer \<Rightarrow> 'a pgas \<Rightarrow> bool" where
  "flush_defined pe b st =
     (\<not> QLOCK st \<and> pe < length (queues st) \<and> inq b \<le> local_size b \<and>
      (inq b = 0 \<or> shared_in (queues st ! pe) + inq b \<le> length (shared (queues st ! pe))) \<and>
      list_all (\<lambda>i. i = pe \<or> local_size b = 0 \<or>
                  shared_in (queues st ! pe) + 2 * local_size b \<le> length (shared (queues st ! i)))
        [0..<length (queues st)])"



subsection \<open>Example inputs\<close>

text \<open>The path 0-1-2-3-4-5 of scenario 1, a graph of two vertices and one undirected
  edge, and an environment whose uninitialised memory holds sevens, nines, eights and zero
  (queue buffers of one element).\<close>

definition path_graph :: Graph where
  "path_graph = \<lparr>num_nodes = 6,
     out_neighs = [[1], [0, 2], [1, 3], [2, 4], [3, 5], [4]],
     in_neighs = [[1], [0, 2], [1, 3], [2, 4], [3, 5], [4]],
     num_edges_directed = 10\<rparr>"

definition edge_graph :: Graph where
  "edge_graph = \<lparr>num_nodes = 2, out_neighs = [[1], [0]], in_neighs = [[1], [0]],
     num_edges_directed = 2\<rparr>"

definition env0 :: env where
  "env0 = \<lparr>fresh_parent = (\<lambda>p. replicate 6 7), fresh_queue = (\<lambda>k p. [9]),
            fresh_behind = (\<lambda>k p i. 8), fresh_scout = (\<lambda>k p. 0)\<rparr>"

text \<open>Two PEs with a queue of capacity 16 each, as \<open>SlidingQueue{16}\<close> leaves them.\<close>

definition two_ranks :: "nat pgas" where
  "two_ranks = \<lparr>queues = [SlidingQueue_new 16, SlidingQueue_new 16], QLOCK = False\<rparr>"

text \<open>The heap after PE 0 has flushed the two staged items 5, 6 of a buffer of four, with
  the heap behind the buffer holding nines.\<close>

definition two_ranks_after :: "nat pgas" where
  "two_ranks_after =
     \<lparr>queues =
        [\<lparr>shared = [5, 6, 0, 0, 0, 0, 0, 0, 0, 0, 0, 0, 0, 0, 0, 0], shared_in = 2,
          shared_out_start = 0, shared_out_end = 0\<rparr>,
         \<lparr>shared = [5, 6, 0, 0, 9, 9, 9, 9, 0, 0, 0, 0, 0, 0, 0, 0], shared_in = 4,
          shared_out_start = 0, shared_out_end = 0\<rparr>],
      QLOCK = False\<rparr>"

text \<open>What the loops of \<open>OrderedCount\<close> add to the total for one \<open>v\<close> and for one \<open>u\<close>,
  in closed form, and the triples they count.\<close>

definition tc_inner :: "Graph \<Rightarrow> nat \<Rightarrow> nat \<Rightarrow> nat" where
  "tc_inner g u v = length (filter (\<lambda>w. w \<le> v \<and> w \<in> set (out_neighs g ! u)) (out_neighs g ! v))"

definition tc_vertex :: "Graph \<Rightarrow> nat \<Rightarrow> nat" where
  "tc_vertex g u = sum_list (map (tc_inner g u) (filter (\<lambda>v. v \<le> u) (out_neighs g ! u)))"

definition tc_triples :: "Graph \<Rightarrow> (nat \<times> nat \<times> nat) set" where
  "tc_triples g = (SIGMA u:{..<num_nodes g}.
                   SIGMA v:{v \<in> set (out_neighs g ! u). v \<le> u}.
                     {w \<in> set (out_neighs g ! v). w \<le> v \<and> w \<in> set (out_neighs g ! u)})"

text \<open> An adjacency input of four vertices on two ranks, with repeated entries and
  self loops, and the uninitialised contents of the two \<open>diffs\<close> arrays.\<close>

definition squish_input :: "nat list list list" where
  "squish_input = [[[3, 1, 1, 0], [0, 2, 1, 0]], [[3, 2, 1], []]]"

definition squish_fresh :: "nat list list" where
  "squish_fresh = [[5, 5], [6, 6]]"

section \<open>The verifiers\<close>

text \<open>\<open>BFSVerifier\<close> of \<open>bfs.cc\<close>. The lines it writes to \<open>cout\<close> before it returns
  \<open>false\<close>: "Source wrong", "Wrong depths for u & v", "Couldn't find edge from p to u" and
  "Reachability mismatch".\<close>

datatype warning = SourceWrong | WrongDepths nat nat | NoEdge int nat | ReachabilityMismatch

text \<open>The body of the inner loop of the serial traversal, for the edge from \<open>u\<close> to \<open>v\<close>.
  \<open>to_visit\<close> was reserved for \<open>cap = g.num_nodes()\<close> elements and the loop holds an iterator
  into it, so a \<open>push_back\<close> over the capacity, which would reallocate the vector under the
  iterator, has no result.\<close>

definition visit_out :: "nat \<Rightarrow> nat \<Rightarrow> nat \<Rightarrow> int list \<times> nat list \<Rightarrow> (int list \<times> nat list) option" where
  "visit_out cap u v = (\<lambda>(depth, to_visit).
     do { dv \<leftarrow> rd depth v;
          if dv = - 1
          then do { du \<leftarrow> rd depth u;
                    depth' \<leftarrow> wr depth v (du + 1);
                    if length to_visit < cap then Some (depth', to_visit @ [v]) else None }
          else Some (depth, to_visit) })"

definition visit_vertex :: "Graph \<Rightarrow> nat \<Rightarrow> int list \<times> nat list \<Rightarrow> (int list \<times> nat list) option" where
  "visit_vertex g u st = do { ns \<leftarrow> out_neigh g u; for_each (visit_out (num_nodes g) u) ns st }"

text \<open>\<open>for (auto it = to_visit.begin(); it != to_visit.end(); it++)\<close>: the state is the depth
  array with the vector, \<open>i\<close> is the position of \<open>it\<close>.\<close>

partial_function (option) serial_bfs :: "Graph \<Rightarrow> int list \<times> nat list \<Rightarrow> nat \<Rightarrow> int list option" where
  "serial_bfs g st i =
     (if i < length (snd st)
      then do { st' \<leftarrow> visit_vertex g (snd st ! i) st; serial_bfs g st' (i + 1) }
      else Some (fst st))"

text \<open>The depths of the serial traversal from \<open>source\<close>: \<open>depth\<close> starts as \<open>-1\<close> everywhere,
  \<open>depth[source] = 0\<close>, and \<open>source\<close> is pushed first.\<close>

definition serial_depths :: "Graph \<Rightarrow> nat \<Rightarrow> int list option" where
  "serial_depths g source =
     do { depth \<leftarrow> wr (replicate (num_nodes g) (- 1)) source 0;
          if 0 < num_nodes g then serial_bfs g (depth, [source]) 0 else None }"

text \<open>The loop over \<open>g.in_neigh(u)\<close> that looks for \<open>parent[u]\<close>; the result is the warning of
  the failed check, or \<open>None\<close> when \<open>parent_found\<close>.\<close>

fun check_in :: "int list \<Rightarrow> int list \<Rightarrow> nat \<Rightarrow> nat list \<Rightarrow> warning option option" where
  "check_in depth parent u [] = do { pu \<leftarrow> rd parent u; Some (Some (NoEdge pu u)) }"
| "check_in depth parent u (v # vs) =
     do { pu \<leftarrow> rd parent u;
          if int v = pu
          then do { dv \<leftarrow> rd depth v;
                    du \<leftarrow> rd depth u;
                    if dv \<noteq> du - 1 then Some (Some (WrongDepths u v)) else Some None }
          else check_in depth parent u vs }"

definition check_vertex :: "Graph \<Rightarrow> nat \<Rightarrow> int list \<Rightarrow> int list \<Rightarrow> nat \<Rightarrow> warning option option" where
  "check_vertex g source depth parent u =
     do { du \<leftarrow> rd depth u;
          pu \<leftarrow> rd parent u;
          if du \<noteq> - 1 \<and> pu \<noteq> - 1
          then if u = source
               then if \<not> (pu = int u \<and> du = 0) then Some (Some SourceWrong) else Some None
               else do { ns \<leftarrow> in_neigh g u; check_in depth parent u ns }
          else if du \<noteq> pu then Some (Some ReachabilityMismatch) else Some None }"

fun check_all :: "Graph \<Rightarrow> nat \<Rightarrow> int list \<Rightarrow> int list \<Rightarrow> nat list \<Rightarrow> warning option option" where
  "check_all g source depth parent [] = Some None"
| "check_all g source depth parent (u # us) =
     do { r \<leftarrow> check_vertex g source depth parent u;
          case r of Some w \<Rightarrow> Some (Some w) | None \<Rightarrow> check_all g source depth parent us }"

definition BFSVerifier :: "Graph \<Rightarrow> nat \<Rightarrow> int list \<Rightarrow> (bool \<times> warning list) option" where
  "BFSVerifier g source parent =
     do { depth \<leftarrow> serial_depths g source;
          r \<leftarrow> check_all g source depth parent [0..<num_nodes g];
          Some (case r of None \<Rightarrow> (True, []) | Some w \<Rightarrow> (False, [w])) }"

text \<open>The agreement of a parent array with the depths of the reference traversal, in the
  words of the comment above \<open>BFSVerifier\<close>: the source is its own parent at depth 0, the
  parent of another reached vertex is one of its in-neighbours, one level up, and a vertex
  has a parent exactly when the traversal reached it.\<close>

definition vertex_agrees :: "Graph \<Rightarrow> nat \<Rightarrow> int list \<Rightarrow> int list \<Rightarrow> nat \<Rightarrow> bool" where
  "vertex_agrees g source depth parent u =
     (if depth ! u \<noteq> - 1 \<and> parent ! u \<noteq> - 1
      then if u = source then parent ! u = int u \<and> depth ! u = 0
           else list_ex (\<lambda>v. int v = parent ! u \<and> depth ! v = depth ! u - 1) (in_neighs g ! u)
      else depth ! u = parent ! u)"

definition bfs_agrees :: "Graph \<Rightarrow> nat \<Rightarrow> int list \<Rightarrow> int list \<Rightarrow> bool" where
  "bfs_agrees g source depth parent = list_all (vertex_agrees g source depth parent) [0..<num_nodes g]"

text \<open>The inputs the benchmark harness hands to the verifier: a source and neighbour ids
  below \<open>num_nodes\<close>, adjacency and parent arrays of \<open>num_nodes\<close> entries.\<close>

definition bfs_input_ok :: "Graph \<Rightarrow> nat \<Rightarrow> int list \<Rightarrow> bool" where
  "bfs_input_ok g source parent =
     (source < num_nodes g \<and> num_nodes g \<le> length (out_neighs g) \<and>
      num_nodes g \<le> length (in_neighs g) \<and> num_nodes g \<le> length parent \<and>
      list_all (list_all (\<lambda>v. v < num_nodes g)) (take (num_nodes g) (out_neighs g)) \<and>
      list_all (list_all (\<lambda>v. v < num_nodes g)) (take (num_nodes g) (in_neighs g)))"

text \<open>\<open>SSSPVerifier\<close> of \<open>sssp.cc\<close> on rank \<open>pe\<close>, at its turn in the \<open>PRINTER\<close> chain: it appends
  its slice of the distances to \<open>sssp_output.txt\<close> (the lines \<open>shmem_out\<close>) and returns
  \<open>true\<close>.\<close>

definition SSSPVerifier :: "nat \<Rightarrow> nat \<Rightarrow> nat \<Rightarrow> int list \<Rightarrow> int list \<Rightarrow> (bool \<times> int list) option" where
  "SSSPVerifier n pe npes dist_to_test shmem_out =
     do { vp \<leftarrow> Partition_new n pe npes;
          out \<leftarrow> for_each (\<lambda>v out. do { i \<leftarrow> vp_local_pos vp v;
                                            d \<leftarrow> rd dist_to_test i;
                                            Some (out @ [d]) })
                   [vp_start vp..<vp_end vp] shmem_out;
          Some (True, out) }"

text \<open>\<open>TCVerifier\<close> of \<open>tc.cc\<close> on rank \<open>pe\<close>: rank 0 prints the count and appends it to
  \<open>tc_output.txt\<close>; every rank returns \<open>true\<close>.\<close>

definition TCVerifier :: "Graph \<Rightarrow> nat \<Rightarrow> nat \<Rightarrow> nat list \<times> nat list \<Rightarrow> bool \<times> nat list \<times> nat list" where
  "TCVerifier g test_total pe = (\<lambda>(stdout, shmem_out).
     (True, if pe = 0 then (stdout @ [test_total], shmem_out @ [test_total]) else (stdout, shmem_out)))"

text \<open>The invariant of the serial traversal: every vertex is in \<open>to_visit\<close> or still at
  depth \<open>-1\<close>, so the vector never outgrows its capacity.\<close>

definition bfs_inv :: "nat \<Rightarrow> int list \<times> nat list \<Rightarrow> bool" where
  "bfs_inv n st = (length (fst st) = n \<and> length (snd st) + count_list (fst st) (- 1) = n \<and>
      list_all (\<lambda>v. v < n) (snd st) \<and> list_all (\<lambda>d. - 1 \<le> d) (fst st))"

definition out_ok :: "Graph \<Rightarrow> bool" where
  "out_ok g = (num_nodes g \<le> length (out_neighs g) \<and>
      list_all (list_all (\<lambda>v. v < num_nodes g)) (take (num_nodes g) (out_neighs g)))"

(*DEFS-END*)

section \<open>Proofs: the sliding queue\<close>

lemma rd_Some: "rd xs i = Some x \<longleftrightarrow> i < length xs \<and> x = xs ! i"
  by (auto simp: rd_def)

lemma wr_Some: "wr xs i v = Some ys \<longleftrightarrow> i < length xs \<and> ys = xs[i := v]"
  by (auto simp: wr_def)

lemma write_range_Some:
  assumes "write_range xs k ys = Some zs"
  shows "length zs = length xs" and "take k zs = take k xs"
    and "take (length ys) (drop k zs) = ys"
  using assms by (auto simp: write_range_def split: if_splits)

lemma write_range_total:
  "k + length ys \<le> length xs \<Longrightarrow> \<exists>zs. write_range xs k ys = Some zs"
  by (simp add: write_range_def)

lemma write_range_defined:
  "(write_range xs k ys \<noteq> None) = (ys = [] \<or> k + length ys \<le> length xs)"
  by (simp add: write_range_def)

lemma put64_words_length: "length (put64_words b) = 2 * local_size b"
  by (simp add: put64_words_def local_size_def)

lemma put64_words_take: "take (local_size b) (put64_words b) = local_queue b"
  by (simp add: put64_words_def local_size_def)

lemma flush_puts_length:
  "flush_puts pe cs ce b js qs = Some qs' \<Longrightarrow> length qs' = length qs"
proof (induction js arbitrary: qs)
  case Nil
  then show ?case by simp
next
  case (Cons i js)
  then show ?case
    by (fastforce split: if_splits simp: rd_def bind_eq_Some_conv)
qed

lemma flush_puts_other:
  "flush_puts pe cs ce b js qs = Some qs' \<Longrightarrow> i \<notin> set js \<or> i = pe \<Longrightarrow> qs' ! i = qs ! i"
proof (induction js arbitrary: qs)
  case Nil
  then show ?case by simp
next
  case (Cons j js)
  then show ?case
    by (fastforce split: if_splits simp: rd_def bind_eq_Some_conv)
qed

lemma flush_puts_visited:
  "flush_puts pe cs ce b js qs = Some qs' \<Longrightarrow> distinct js \<Longrightarrow> i \<in> set js \<Longrightarrow> i \<noteq> pe \<Longrightarrow>
   \<exists>s. write_range (shared (qs ! i)) cs (put64_words b) = Some s \<and>
       i < length qs \<and> qs' ! i = (qs ! i)\<lparr>shared := s, shared_in := ce\<rparr>"
proof (induction js arbitrary: qs)
  case Nil
  then show ?case by simp
next
  case (Cons j js)
  show ?case
  proof (cases "j = i")
    case True
    with Cons.prems obtain q s where q: "rd qs i = Some q"
      and s: "write_range (shared q) cs (put64_words b) = Some s"
      and rest: "flush_puts pe cs ce b js (qs[i := q\<lparr>shared := s, shared_in := ce\<rparr>]) = Some qs'"
      by (auto simp: bind_eq_Some_conv)
    from Cons.prems True have "i \<notin> set js" by simp
    with rest have "qs' ! i = (qs[i := q\<lparr>shared := s, shared_in := ce\<rparr>]) ! i"
      by (blast dest: flush_puts_other)
    with q s show ?thesis by (auto simp: rd_def split: if_splits)
  next
    case False
    with Cons.prems have i: "i \<in> set js" and d: "distinct js" by auto
    show ?thesis
    proof (cases "j = pe")
      case True
      with Cons.prems have "flush_puts pe cs ce b js qs = Some qs'" by simp
      from Cons.IH[OF this d i Cons.prems(4)] show ?thesis .
    next
      case jpe: False
      with Cons.prems obtain q s where
        rest: "flush_puts pe cs ce b js (qs[j := q\<lparr>shared := s, shared_in := ce\<rparr>]) = Some qs'"
        by (auto simp: bind_eq_Some_conv)
      from Cons.IH[OF rest d i Cons.prems(4)] False show ?thesis by simp
    qed
  qed
qed

lemma flush_puts_total:
  "\<forall>i\<in>set js. i < length qs \<and>
      (i \<noteq> pe \<longrightarrow> local_size b = 0 \<or> cs + 2 * local_size b \<le> length (shared (qs ! i))) \<Longrightarrow>
   distinct js \<Longrightarrow> \<exists>qs'. flush_puts pe cs ce b js qs = Some qs'"
proof (induction js arbitrary: qs)
  case Nil
  then show ?case by simp
next
  case (Cons j js)
  show ?case
  proof (cases "j = pe")
    case True
    with Cons show ?thesis by simp
  next
    case False
    from put64_words_length[of b] False Cons.prems
    have "put64_words b = [] \<or> cs + length (put64_words b) \<le> length (shared (qs ! j))" by auto
    then obtain s where s: "write_range (shared (qs ! j)) cs (put64_words b) = Some s"
      using write_range_defined[of "shared (qs ! j)" cs "put64_words b"] by auto
    let ?qs = "qs[j := (qs ! j)\<lparr>shared := s, shared_in := ce\<rparr>]"
    have len: "length s = length (shared (qs ! j))" using write_range_Some(1)[OF s] .
    have "\<forall>i\<in>set js. i < length ?qs \<and>
      (i \<noteq> pe \<longrightarrow> local_size b = 0 \<or> cs + 2 * local_size b \<le> length (shared (?qs ! i)))"
      using Cons.prems len by (auto simp: nth_list_update)
    with Cons.IH[of ?qs] Cons.prems obtain qs' where "flush_puts pe cs ce b js ?qs = Some qs'"
      by auto
    with False s Cons.prems show ?thesis by (simp add: rd_def)
  qed
qed

lemma flush_total:
  assumes "flush_defined pe b st"
  shows "\<exists>st'. flush pe b st = Some (b\<lparr>inq := 0\<rparr>, st')"
proof -
  let ?q = "queues st ! pe"
  let ?cs = "shared_in ?q"
  from assms have lock: "\<not> QLOCK st" and pe: "pe < length (queues st)"
    and n: "inq b \<le> local_size b"
    and own: "inq b = 0 \<or> ?cs + inq b \<le> length (shared ?q)"
    and others: "\<forall>i<length (queues st). i = pe \<or> local_size b = 0 \<or>
                  ?cs + 2 * local_size b \<le> length (shared (queues st ! i))"
    by (auto simp: flush_defined_def list_all_iff)
  from n have li: "length (take (inq b) (local_queue b)) = inq b" by (simp add: local_size_def)
  from own li obtain s where s: "write_range (shared ?q) ?cs (take (inq b) (local_queue b)) = Some s"
    using write_range_defined[of "shared ?q" ?cs "take (inq b) (local_queue b)"] by auto
  let ?qs1 = "(queues st)[pe := ?q\<lparr>shared_in := ?cs + inq b, shared := s\<rparr>]"
  have "\<forall>i\<in>set [0..<length (queues st)]. i < length ?qs1 \<and>
      (i \<noteq> pe \<longrightarrow> local_size b = 0 \<or> ?cs + 2 * local_size b \<le> length (shared (?qs1 ! i)))"
    using others by auto
  then obtain qs2 where
    "flush_puts pe ?cs (?cs + local_size b) b [0..<length (queues st)] ?qs1 = Some qs2"
    using flush_puts_total[of "[0..<length (queues st)]" ?qs1 pe b ?cs] by auto
  with lock pe s n show ?thesis
    by (simp add: flush_def shmem_set_lock_def rd_def Let_def)
qed

lemma flush_Some:
  assumes "flush pe b st = Some (b', st')"
  defines "cs \<equiv> shared_in (queues st ! pe)"
  shows "flush_defined pe b st" and "\<not> QLOCK st'" and "b' = b\<lparr>inq := 0\<rparr>"
    and "length (queues st') = length (queues st)"
    and "shared_in (queues st' ! pe) = cs + inq b"
    and "i < length (queues st) \<Longrightarrow>
           length (shared (queues st' ! i)) = length (shared (queues st ! i)) \<and>
           take cs (shared (queues st' ! i)) = take cs (shared (queues st ! i)) \<and>
           shared_out_start (queues st' ! i) = shared_out_start (queues st ! i) \<and>
           shared_out_end (queues st' ! i) = shared_out_end (queues st ! i) \<and>
           take (inq b) (drop cs (shared (queues st' ! i))) = take (inq b) (local_queue b)"
    and "i < length (queues st) \<Longrightarrow> i \<noteq> pe \<Longrightarrow> shared_in (queues st' ! i) = cs + local_size b"
proof -
  let ?q = "queues st ! pe"
  from assms(1) obtain s qs2 where lock: "\<not> QLOCK st" and pe: "pe < length (queues st)"
    and n: "inq b \<le> local_size b"
    and s: "write_range (shared ?q) cs (take (inq b) (local_queue b)) = Some s"
    and qs2: "flush_puts pe cs (cs + local_size b) b [0..<length (queues st)]
                ((queues st)[pe := ?q\<lparr>shared_in := cs + inq b, shared := s\<rparr>]) = Some qs2"
    and b': "b' = b\<lparr>inq := 0\<rparr>" and st': "st' = \<lparr>queues = qs2, QLOCK = False\<rparr>"
    by (auto simp: flush_def shmem_set_lock_def shmem_clear_lock_def rd_def Let_def cs_def
        bind_eq_Some_conv split: if_splits)
  let ?qs1 = "(queues st)[pe := ?q\<lparr>shared_in := cs + inq b, shared := s\<rparr>]"
  from n have li: "length (take (inq b) (local_queue b)) = inq b" by (simp add: local_size_def)
  show "\<not> QLOCK st'" by (simp add: st')
  show "b' = b\<lparr>inq := 0\<rparr>" by fact
  show len: "length (queues st') = length (queues st)"
    using flush_puts_length[OF qs2] by (simp add: st')
  have own: "qs2 ! pe = ?qs1 ! pe"
    using flush_puts_other[OF qs2, of pe] by simp
  then show "shared_in (queues st' ! pe) = cs + inq b"
    using pe by (simp add: st')
  have other: "\<exists>s'. write_range (shared (queues st ! j)) cs (put64_words b) = Some s' \<and>
                  qs2 ! j = (queues st ! j)\<lparr>shared := s', shared_in := cs + local_size b\<rparr>"
    if "j < length (queues st)" "j \<noteq> pe" for j
    using flush_puts_visited[OF qs2, of j] that by auto
  show "flush_defined pe b st"
    unfolding flush_defined_def list_all_iff
  proof (intro conjI ballI)
    show "\<not> QLOCK st" "pe < length (queues st)" "inq b \<le> local_size b" by fact+
    show "inq b = 0 \<or> shared_in ?q + inq b \<le> length (shared ?q)"
      using s li write_range_defined[of "shared ?q" cs "take (inq b) (local_queue b)"]
      by (auto simp: cs_def)
    fix j assume "j \<in> set [0..<length (queues st)]"
    then have j: "j < length (queues st)" by simp
    show "j = pe \<or> local_size b = 0 \<or>
            shared_in ?q + 2 * local_size b \<le> length (shared (queues st ! j))"
    proof (cases "j = pe")
      case True
      then show ?thesis by simp
    next
      case False
      from other[OF j False] obtain s' where
        s': "write_range (shared (queues st ! j)) cs (put64_words b) = Some s'" by blast
      from put64_words_length[of b] s'
        write_range_defined[of "shared (queues st ! j)" cs "put64_words b"]
      have "local_size b = 0 \<or> cs + 2 * local_size b \<le> length (shared (queues st ! j))"
        by auto
      then show ?thesis by (simp add: cs_def)
    qed
  qed
  {
    assume i: "i < length (queues st)"
    show "length (shared (queues st' ! i)) = length (shared (queues st ! i)) \<and>
           take cs (shared (queues st' ! i)) = take cs (shared (queues st ! i)) \<and>
           shared_out_start (queues st' ! i) = shared_out_start (queues st ! i) \<and>
           shared_out_end (queues st' ! i) = shared_out_end (queues st ! i) \<and>
           take (inq b) (drop cs (shared (queues st' ! i))) = take (inq b) (local_queue b)"
    proof (cases "i = pe")
      case True
      from write_range_Some(3)[OF s] li
      have "take (inq b) (drop cs s) = take (inq b) (local_queue b)" by simp
      with True own pe s show ?thesis by (auto simp: st' dest: write_range_Some)
    next
      case False
      from other[OF i False] obtain s' where
        s': "write_range (shared (queues st ! i)) cs (put64_words b) = Some s'"
        and q: "qs2 ! i = (queues st ! i)\<lparr>shared := s', shared_in := cs + local_size b\<rparr>"
        by blast
      let ?ws = "put64_words b"
      from write_range_Some(3)[OF s']
      have "take (inq b) (take (length ?ws) (drop cs s')) = take (inq b) ?ws" by simp
      moreover have "take (inq b) ?ws = take (inq b) (take (local_size b) ?ws)"
        using n by (simp add: min_def)
      moreover have "inq b \<le> length ?ws" using put64_words_length[of b] n by simp
      ultimately have "take (inq b) (drop cs s') = take (inq b) (local_queue b)"
        using put64_words_take[of b] by (simp add: min_def)
      with q s' show ?thesis by (auto simp: st' dest: write_range_Some)
    qed
    assume "i \<noteq> pe"
    from other[OF i this] show "shared_in (queues st' ! i) = cs + local_size b"
      by (auto simp: st')
  }
qed

lemma flush_locked: "QLOCK st \<Longrightarrow> flush pe b st = None"
  by (simp add: flush_def shmem_set_lock_def)

text \<open>
  Claim C1 (the invariant after all buffers have flushed), evaluated on the code. Two
  PEs share a queue of capacity 16; the buffers hold \<open>local_size = 4\<close> elements. PE 0
  flushes one staged item, then PE 1 flushes an empty buffer (as the last statement of
  \<open>BitmapToQueue\<close> and of \<open>SHMEM_TDStep\<close> does on every PE). The claim has every PE end
  with the same \<open>shared_in\<close>, 1. On the code PE 0 ends with 8 and PE 1 with 4: the value
  put to the other PEs is \<open>copy_start + local_size\<close>, the end of a full buffer, not
  \<open>copy_start + in\<close>.
\<close>

theorem flush_partial_buffer_shared_in_disagree:
  "do { (b0, st1) \<leftarrow> flush 0 \<lparr>inq = 1, local_queue = [7, 0, 0, 0], heap_after = (\<lambda>i. 0)\<rparr> two_ranks;
        (b1, st2) \<leftarrow> flush 1 \<lparr>inq = 0, local_queue = [0, 0, 0, 0], heap_after = (\<lambda>i. 0)\<rparr> st1;
        Some (map shared_in (queues st2)) } = Some [8, 4]"
  by code_simp

text \<open>
  Claim C2, as the code has it. A flush of PE \<open>pe\<close> has a result exactly when the lock is
  free and what it writes stays inside the arrays (\<open>flush_defined\<close>). Then it takes the
  lock and frees it again; \<open>copy_start\<close> is the old value of the caller's own \<open>shared_in\<close>,
  which the fetch-add advances by \<open>in\<close>; every PE's backing array holds the \<open>in\<close> staged
  items from \<open>copy_start\<close> on, with everything before \<open>copy_start\<close>, the capacity and the
  window indices as they were; and the buffer is empty.
\<close>

theorem flush_reserves_on_caller:
  "(flush pe b st \<noteq> None) = flush_defined pe b st \<and>
   (\<forall>b' st'. flush pe b st = Some (b', st') \<longrightarrow>
      \<not> QLOCK st \<and> \<not> QLOCK st' \<and> flush pe b (st\<lparr>QLOCK := True\<rparr>) = None \<and>
      b' = b\<lparr>inq := 0\<rparr> \<and>
      length (queues st') = length (queues st) \<and>
      shared_in (queues st' ! pe) = shared_in (queues st ! pe) + inq b \<and>
      (\<forall>i<length (queues st).
         take (inq b) (drop (shared_in (queues st ! pe)) (shared (queues st' ! i)))
           = take (inq b) (local_queue b) \<and>
         take (shared_in (queues st ! pe)) (shared (queues st' ! i))
           = take (shared_in (queues st ! pe)) (shared (queues st ! i)) \<and>
         length (shared (queues st' ! i)) = length (shared (queues st ! i)) \<and>
         shared_out_start (queues st' ! i) = shared_out_start (queues st ! i) \<and>
         shared_out_end (queues st' ! i) = shared_out_end (queues st ! i)))"
proof (intro conjI allI impI)
  show "(flush pe b st \<noteq> None) = flush_defined pe b st"
  proof
    assume "flush pe b st \<noteq> None"
    then obtain b' st' where "flush pe b st = Some (b', st')" by auto
    then show "flush_defined pe b st" by (rule flush_Some(1))
  next
    assume "flush_defined pe b st"
    from flush_total[OF this] show "flush pe b st \<noteq> None" by auto
  qed
next
  fix b' st'
  assume f: "flush pe b st = Some (b', st')"
  note facts = flush_Some[OF f]
  from facts(1) show "\<not> QLOCK st" by (simp add: flush_defined_def)
  show "\<not> QLOCK st'" by (rule facts(2))
  show "flush pe b (st\<lparr>QLOCK := True\<rparr>) = None" by (simp add: flush_locked)
  show "b' = b\<lparr>inq := 0\<rparr>" by (rule facts(3))
  show "length (queues st') = length (queues st)" by (rule facts(4))
  show "shared_in (queues st' ! pe) = shared_in (queues st ! pe) + inq b" by (rule facts(5))
  fix i assume "i < length (queues st)"
  from facts(6)[OF this] show
    "take (inq b) (drop (shared_in (queues st ! pe)) (shared (queues st' ! i)))
           = take (inq b) (local_queue b)"
    and "take (shared_in (queues st ! pe)) (shared (queues st' ! i))
           = take (shared_in (queues st ! pe)) (shared (queues st ! i))"
    and "length (shared (queues st' ! i)) = length (shared (queues st ! i))"
    and "shared_out_start (queues st' ! i) = shared_out_start (queues st ! i)"
    and "shared_out_end (queues st' ! i) = shared_out_end (queues st ! i)"
    by simp_all
qed

theorem flush_reserves_on_caller_witness:
  "\<exists>st'. flush 1 \<lparr>inq = 4, local_queue = [1, 2, 3, 4], heap_after = (\<lambda>i. 8)\<rparr> two_ranks_after
            = Some (\<lparr>inq = 0, local_queue = [1, 2, 3, 4], heap_after = (\<lambda>i. 8)\<rparr>, st') \<and>
         flush_defined 1 \<lparr>inq = 4, local_queue = [1, 2, 3, 4], heap_after = (\<lambda>i. 8)\<rparr> two_ranks_after \<and>
         shared_in (queues st' ! 1) = 8 \<and>
         take 4 (drop 4 (shared (queues st' ! 0))) = [1, 2, 3, 4] \<and>
         take 4 (drop 4 (shared (queues st' ! 1))) = [1, 2, 3, 4]"
proof -
  let ?b = "\<lparr>inq = 4, local_queue = [1, 2, 3, 4::nat], heap_after = (\<lambda>i. 8::nat)\<rparr>"
  have d: "flush_defined 1 ?b two_ranks_after" by code_simp
  note t = flush_reserves_on_caller[of 1 ?b two_ranks_after]
  from t d obtain b' st' where f: "flush 1 ?b two_ranks_after = Some (b', st')" by auto
  from t f have b': "b' = ?b\<lparr>inq := 0\<rparr>"
    and si: "shared_in (queues st' ! 1) = shared_in (queues two_ranks_after ! 1) + inq ?b"
    and all: "\<forall>i<length (queues two_ranks_after).
         take (inq ?b) (drop (shared_in (queues two_ranks_after ! 1)) (shared (queues st' ! i)))
           = take (inq ?b) (local_queue ?b)"
    by blast+
  have l: "length (queues two_ranks_after) = 2" and s: "shared_in (queues two_ranks_after ! 1) = 4"
    by (simp_all add: two_ranks_after_def)
  from all l s have "take 4 (drop 4 (shared (queues st' ! 0))) = [1, 2, 3, 4]"
    and "take 4 (drop 4 (shared (queues st' ! 1))) = [1, 2, 3, 4]"
    by auto
  with f b' si s d show ?thesis by (intro exI[of _ st']) simp
qed

text \<open>
  Claim C2 as stated does not hold. \<open>two_ranks_after\<close> is the heap the code itself
  leaves after PE 0 flushed two items; there PE 0's \<open>shared_in\<close> is 2 and PE 1's is 4.
  PE 1 now flushes a full buffer. The code reserves behind PE 1's own \<open>shared_in\<close> and
  writes the items at 4..7; the flush of the specification reserves behind PE 0's
  \<open>shared_in\<close> and writes them at 2..5.
\<close>

theorem flush_not_on_rank_0:
  "map_option snd (flush 0 \<lparr>inq = 2, local_queue = [5, 6, 0, 0], heap_after = (\<lambda>i. 9)\<rparr> two_ranks)
     = Some two_ranks_after \<and>
   map (take 8) (map shared (queues (snd (the (flush 1
       \<lparr>inq = 4, local_queue = [1, 2, 3, 4], heap_after = (\<lambda>i. 8)\<rparr> two_ranks_after)))))
     = [[5, 6, 0, 0, 1, 2, 3, 4], [5, 6, 0, 0, 1, 2, 3, 4]] \<and>
   map (take 8) (map shared (queues (snd (the (flush_spec 1
       \<lparr>inq = 4, local_queue = [1, 2, 3, 4], heap_after = (\<lambda>i. 8)\<rparr> two_ranks_after)))))
     = [[5, 6, 1, 2, 3, 4, 0, 0], [5, 6, 1, 2, 3, 4, 9, 9]] \<and>
   map_option snd (flush 1 \<lparr>inq = 4, local_queue = [1, 2, 3, 4], heap_after = (\<lambda>i. 8)\<rparr> two_ranks_after)
     \<noteq> map_option snd (flush_spec 1 \<lparr>inq = 4, local_queue = [1, 2, 3, 4], heap_after = (\<lambda>i. 8)\<rparr> two_ranks_after)"
  by code_simp

section \<open>Proofs: breadth-first search\<close>

lemma for_each_invariant:
  assumes "for_each f xs s = Some s'" and "P s"
    and "\<And>x s s'. x \<in> set xs \<Longrightarrow> P s \<Longrightarrow> f x s = Some s' \<Longrightarrow> P s'"
  shows "P s'"
  using assms
proof (induction xs arbitrary: s)
  case Nil
  then show ?case by simp
next
  case (Cons x xs)
  from Cons.prems(1) obtain s1 where s1: "f x s = Some s1" and rest: "for_each f xs s1 = Some s'"
    by (auto split: option.splits)
  from Cons.prems(3)[of x s s1] Cons.prems(2) s1 have p1: "P s1" by simp
  show ?case
  proof (rule Cons.IH[OF rest p1])
    fix y t t'
    assume "y \<in> set xs" "P t" "f y t = Some t'"
    then show "P t'" using Cons.prems(3)[of y t t'] by simp
  qed
qed

lemma for_each_range_invariant:
  assumes "for_each f [a..<b] s = Some s'" and "Q a s" and "a \<le> b"
    and "\<And>i s s'. a \<le> i \<Longrightarrow> i < b \<Longrightarrow> Q i s \<Longrightarrow> f i s = Some s' \<Longrightarrow> Q (Suc i) s'"
  shows "Q b s'"
  using assms
proof (induction "b - a" arbitrary: a s)
  case 0
  then show ?case by simp
next
  case (Suc k)
  then have lt: "a < b" by simp
  then have up: "[a..<b] = a # [Suc a..<b]" by (simp add: upt_conv_Cons)
  with Suc.prems(1) obtain s1 where s1: "f a s = Some s1"
    and rest: "for_each f [Suc a..<b] s1 = Some s'"
    by (auto split: option.splits)
  from Suc.prems(4)[of a s s1] lt Suc.prems(2) s1 have q: "Q (Suc a) s1" by simp
  have "k = b - Suc a" using Suc.hyps(2) by simp
  show ?case
  proof (rule Suc.hyps(1)[OF \<open>k = b - Suc a\<close> rest q])
    show "Suc a \<le> b" using lt by simp
  next
    fix i t t'
    assume "Suc a \<le> i" "i < b" "Q i t" "f i t = Some t'"
    then show "Q (Suc i) t'" using Suc.prems(4)[of i t t'] by simp
  qed
qed

lemma first_in_front_Some:
  "first_in_front front vs = Some (Some v) \<Longrightarrow> v < length front \<and> v \<in> set vs"
  by (induction vs) (auto simp: get_bit_def rd_Some split: option.splits bool.splits)












text \<open>
  Claim C7, evaluated on the code. The path of six vertices, source 0, on two PEs:
  \<open>InitParent\<close> gives each PE a parent array of \<open>max_size = 3\<close> entries, its part of the
  partitioned array. \<open>BUStep\<close> and the loop after the outer loop index that array with
  the vertex ids 0 to 5, so both have no result on either PE, and \<open>DOBFS\<close> has none: with
  the default \<open>alpha = 15\<close> the first round is bottom-up. The claim has every PE return a
  vector with entries \<open>-1\<close> or vertex ids. On one PE the array has six entries and the kernel
  returns such a vector.
\<close>

theorem DOBFS_indexes_partitioned_parent_globally:
  "DOBFS path_graph 0 env0 2 15 18 = None \<and>
   map_option (\<lambda>st. parents (fst st)) (DOBFS_init path_graph 0 env0 2)
     = Some [[0, - 2, - 2], [- 2, - 2, - 1]] \<and>
   reset_unvisited (num_nodes path_graph) [0, - 2, - 2] = None \<and>
   reset_unvisited (num_nodes path_graph) [- 2, - 2, - 1] = None \<and>
   BUStep path_graph [0, - 2, - 2] (Bitmap_reset 6) = None \<and>
   BUStep path_graph [- 2, - 2, - 1] (Bitmap_reset 6) = None \<and>
   map_option fst (DOBFS path_graph 0 env0 1 15 18) = Some [[0, 0, 1, 2, 3, 4]]"
  by code_simp



lemma TD_owner_clamped:
  assumes "0 < po" and "npes \<le> v div po" and "0 < npes"
  shows "TD_owner v po npes = Some (npes - 1, v - po * (npes - 1))"
  using assms by (simp add: TD_owner_def cpp_div_def)

lemma TD_owner_plain:
  assumes "0 < po" and "v div po < npes"
  shows "TD_owner v po npes = Some (v div po, v mod po)"
  using assms by (simp add: TD_owner_def cpp_div_def cpp_mod_def)

text \<open>
  Claim C10. In \<open>SHMEM_TDStep\<close>, with \<open>parent_offset = num_nodes / npes\<close>, at least one PE
  and a neighbour \<open>v\<close> below \<open>num_nodes\<close>: when \<open>num_nodes >= npes\<close> the owner computation
  has a result, \<open>foreign_pe\<close> is below \<open>npes\<close>, \<open>v\<close> lies in the part \<open>[lower_bound,
  upper_bound)\<close> of that PE, and \<open>local_v\<close> is \<open>v\<close>'s position in that part, inside it; when
  \<open>num_nodes < npes\<close> the division is by zero and there is no result.
\<close>

theorem TD_owner_in_slice:
  fixes n npes v :: nat
  defines "parent_offset \<equiv> n div npes"
  assumes "0 < npes" and "v < n"
  shows "(npes \<le> n \<longrightarrow>
           (\<exists>foreign_pe local_v.
              TD_owner v parent_offset npes = Some (foreign_pe, local_v) \<and>
              foreign_pe < npes \<and>
              lower_bound parent_offset foreign_pe \<le> v \<and>
              v < upper_bound n npes parent_offset foreign_pe \<and>
              local_v = v - lower_bound parent_offset foreign_pe \<and>
              local_v < upper_bound n npes parent_offset foreign_pe
                        - lower_bound parent_offset foreign_pe)) \<and>
         (n < npes \<longrightarrow> TD_owner v parent_offset npes = None)"
proof (intro conjI impI)
  assume "n < npes"
  then have "parent_offset = 0" by (simp add: parent_offset_def)
  then show "TD_owner v parent_offset npes = None"
    by (simp add: TD_owner_def cpp_div_def)
next
  assume le: "npes \<le> n"
  with assms have po: "0 < parent_offset"
    by (simp add: parent_offset_def div_greater_zero_iff)
  have tail: "parent_offset * npes \<le> n"
    by (simp add: parent_offset_def)
  show "\<exists>foreign_pe local_v.
              TD_owner v parent_offset npes = Some (foreign_pe, local_v) \<and>
              foreign_pe < npes \<and>
              lower_bound parent_offset foreign_pe \<le> v \<and>
              v < upper_bound n npes parent_offset foreign_pe \<and>
              local_v = v - lower_bound parent_offset foreign_pe \<and>
              local_v < upper_bound n npes parent_offset foreign_pe
                        - lower_bound parent_offset foreign_pe"
  proof (cases "npes \<le> v div parent_offset")
    case True
    have "parent_offset * (npes - 1) \<le> parent_offset * (v div parent_offset)"
      using True by (intro mult_le_mono2) simp
    also have "\<dots> \<le> v" by simp
    finally have lb: "parent_offset * (npes - 1) \<le> v" .
    from assms(2) have last: "npes - 1 + 1 = npes" by simp
    let ?f = "npes - 1"
    have 1: "lower_bound parent_offset ?f \<le> v"
      using lb by (simp add: lower_bound_def)
    have 2: "v < upper_bound n npes parent_offset ?f"
      using assms(3) last by (simp add: upper_bound_def)
    have 3: "v - lower_bound parent_offset ?f
               < upper_bound n npes parent_offset ?f - lower_bound parent_offset ?f"
      using 1 2 by linarith
    have 4: "?f < npes" using assms(2) by simp
    show ?thesis
      using TD_owner_clamped[OF po True assms(2)] 1 2 3 4
      by (auto simp: lower_bound_def)
  next
    case False
    then have lt: "v div parent_offset < npes" by simp
    have lb: "parent_offset * (v div parent_offset) \<le> v" by simp
    have md: "v mod parent_offset = v - parent_offset * (v div parent_offset)"
      by (simp add: minus_mult_div_eq_mod)
    have ub: "v < parent_offset * (v div parent_offset) + parent_offset"
      using mod_less_divisor[OF po, of v] mult_div_mod_eq[of parent_offset v] by linarith
    let ?f = "v div parent_offset"
    have 1: "lower_bound parent_offset ?f \<le> v"
      by (simp add: lower_bound_def)
    have 2: "v < upper_bound n npes parent_offset ?f"
      using ub assms(3) by (simp add: upper_bound_def lower_bound_def)
    have 3: "v mod parent_offset = v - lower_bound parent_offset ?f"
      using md by (simp add: lower_bound_def)
    have 4: "v mod parent_offset
               < upper_bound n npes parent_offset ?f - lower_bound parent_offset ?f"
      using 1 2 3 by linarith
    show ?thesis
      using TD_owner_plain[OF po lt] lt 1 2 3 4 by blast
  qed
qed

theorem TD_owner_in_slice_witness:
  "(\<exists>foreign_pe local_v.
      TD_owner 4 (5 div 2) 2 = Some (foreign_pe, local_v) \<and>
      foreign_pe < 2 \<and>
      lower_bound (5 div 2) foreign_pe \<le> 4 \<and>
      4 < upper_bound 5 2 (5 div 2) foreign_pe \<and>
      local_v = 4 - lower_bound (5 div 2) foreign_pe \<and>
      local_v < upper_bound 5 2 (5 div 2) foreign_pe - lower_bound (5 div 2) foreign_pe) \<and>
   TD_owner 0 (1 div 2) 2 = None"
proof -
  have a: "(0::nat) < 2" and b: "(4::nat) < 5" and c: "(2::nat) \<le> 5"
    and d: "(0::nat) < 1" and e: "(1::nat) < 2"
    by simp_all
  from TD_owner_in_slice[OF a b] c TD_owner_in_slice[OF a d] e show ?thesis
    by blast
qed

text \<open>
  Claim C5 (the value \<open>SHMEM_BUStep\<close> returns), evaluated on the code. One PE; the graph
  is the edge 0-1, vertex 0 is visited and in \<open>front\<close>, vertex 1 is not visited. The step
  gives vertex 1 the parent 0 and sets its bit in \<open>next\<close>, as \<open>BUStep\<close> does, and one
  vertex was newly visited: \<open>BUStep\<close> returns 1. \<open>SHMEM_BUStep\<close> returns whatever the heap
  \<open>h\<close> holds one \<open>long long\<close> past the allocated word, here 0: \<open>awake_count++\<close> moved the
  pointer and counted nothing.
\<close>

theorem SHMEM_BUStep_returns_heap_word:
  "SHMEM_BUStep edge_graph [[0, - 1]] [[True, False]] [h] addr
     = Some (h (addr + 1), [[0, 0]], [False, True]) \<and>
   SHMEM_BUStep edge_graph [[0, - 1]] [[True, False]] [\<lambda>a. 0] addr
     = Some (0, [[0, 0]], [False, True]) \<and>
   BUStep edge_graph [0, - 1] [True, False] = Some (1, [0, 0], [False, True])"
  by (simp add: SHMEM_BUStep_def SHMEM_BUStep_local_def BUStep_def BU_vertex_def edge_graph_def
      cpp_div_def lower_bound_def upper_bound_def in_neigh_def rd_def wr_def get_bit_def
      set_bit_def Bitmap_reset_def Bitmap_merge_def upt_rec numeral_2_eq_2)

section \<open>Proofs: triangle counting\<close>

lemma advance_dropWhile:
  assumes "\<exists>x\<in>set it. w \<le> x"
  shows "advance it w = Some (dropWhile (\<lambda>x. x < w) it) \<and> dropWhile (\<lambda>x. x < w) it \<noteq> []"
  using assms by (induction it) auto

lemma in_dropWhile: "v \<in> set xs \<Longrightarrow> \<not> P v \<Longrightarrow> v \<in> set (dropWhile P xs)"
  by (induction xs) auto

lemma sum_list_map_concat:
  "sum_list (map f (concat xss)) = sum_list (map (\<lambda>xs. sum_list (map f xs)) xss)"
  by (induction xss) auto

lemma hd_dropWhile_eq:
  assumes "sorted_wrt (<) (it::nat list)" and "dropWhile (\<lambda>x. x < w) it \<noteq> []"
  shows "w \<in> set it \<longleftrightarrow> w = hd (dropWhile (\<lambda>x. x < w) it)"
proof
  assume "w \<in> set it"
  then have in': "w \<in> set (dropWhile (\<lambda>x. x < w) it)" by (simp add: in_dropWhile)
  obtain y ys where d: "dropWhile (\<lambda>x. x < w) it = y # ys"
    using assms(2) by (cases "dropWhile (\<lambda>x. x < w) it") auto
  from sorted_wrt_dropWhile[OF assms(1), of "\<lambda>x. x < w"] d have "\<forall>z\<in>set ys. y < z" by simp
  moreover from d have "\<not> y < w" using hd_dropWhile[of "\<lambda>x. x < w" it] by simp
  ultimately show "w = hd (dropWhile (\<lambda>x. x < w) it)" using in' d by auto
next
  assume "w = hd (dropWhile (\<lambda>x. x < w) it)"
  with assms(2) have "w \<in> set (dropWhile (\<lambda>x. x < w) it)" by (metis hd_in_set)
  then show "w \<in> set it" by (rule set_dropWhileD)
qed

lemma count_w_eq:
  assumes "sorted_wrt (<) ws" and "sorted_wrt (<) it" and "v \<in> set it"
  shows "count_w ws v it tot = Some (tot + length (filter (\<lambda>w. w \<le> v \<and> w \<in> set it) ws))"
  using assms
proof (induction ws arbitrary: it tot)
  case Nil
  then show ?case by simp
next
  case (Cons w ws)
  show ?case
  proof (cases "w > v")
    case True
    with Cons.prems(1) have "filter (\<lambda>w. w \<le> v \<and> w \<in> set it) (w # ws) = []"
      by (auto simp: filter_empty_conv)
    with True show ?thesis by simp
  next
    case False
    let ?it' = "dropWhile (\<lambda>x. x < w) it"
    from False Cons.prems(3) have ex: "\<exists>x\<in>set it. w \<le> x"
      by (intro bexI[of _ v]) auto
    from advance_dropWhile[OF ex] have adv: "advance it w = Some ?it'" and ne: "?it' \<noteq> []"
      by auto
    from Cons.prems(3) False have v': "v \<in> set ?it'" by (auto intro: in_dropWhile)
    have s': "sorted_wrt (<) ?it'" using Cons.prems(2) by (rule sorted_wrt_dropWhile)
    from Cons.prems(1) have sws: "sorted_wrt (<) ws" and gt: "\<forall>x\<in>set ws. w < x" by auto
    have same: "filter (\<lambda>w. w \<le> v \<and> w \<in> set ?it') ws = filter (\<lambda>w. w \<le> v \<and> w \<in> set it) ws"
    proof (rule filter_cong[OF refl])
      fix x assume "x \<in> set ws"
      with gt have "\<not> x < w" by auto
      then show "(x \<le> v \<and> x \<in> set ?it') = (x \<le> v \<and> x \<in> set it)"
        by (auto intro: in_dropWhile dest: set_dropWhileD)
    qed
    have step: "count_w (w # ws) v it tot
                = count_w ws v ?it' (if w = hd ?it' then tot + 1 else tot)"
      using adv False by simp
    have wv: "w \<le> v" using False by simp
    show ?thesis
    proof (cases "w \<in> set it")
      case True
      with hd_dropWhile_eq[OF Cons.prems(2) ne] have "hd ?it' = w" by simp
      with True wv show ?thesis
        unfolding step Cons.IH[OF sws s' v'] same by simp
    next
      case notin: False
      with hd_dropWhile_eq[OF Cons.prems(2) ne] have "hd ?it' \<noteq> w" by auto
      with notin wv show ?thesis
        unfolding step Cons.IH[OF sws s' v'] same by simp
    qed
  qed
qed

lemma squishedD:
  assumes "squished g" and "u < num_nodes g"
  shows "out_neigh g u = Some (out_neighs g ! u)" and "sorted_wrt (<) (out_neighs g ! u)"
    and "v \<in> set (out_neighs g ! u) \<Longrightarrow> v < num_nodes g \<and> v \<noteq> u"
proof -
  from assms(1) have len: "length (out_neighs g) = num_nodes g"
    and all: "\<forall>u\<in>set [0..<num_nodes g]. sorted_wrt (<) (out_neighs g ! u) \<and>
                (\<forall>v\<in>set (out_neighs g ! u). v < num_nodes g \<and> v \<noteq> u)"
    unfolding squished_def list_all_iff by blast+
  from assms(2) have "u \<in> set [0..<num_nodes g]" by simp
  with all have u: "sorted_wrt (<) (out_neighs g ! u)"
    "\<forall>v\<in>set (out_neighs g ! u). v < num_nodes g \<and> v \<noteq> u"
    by blast+
  show "out_neigh g u = Some (out_neighs g ! u)"
    using assms(2) len by (simp add: out_neigh_def rd_def)
  show "sorted_wrt (<) (out_neighs g ! u)" by (rule u(1))
  show "v \<in> set (out_neighs g ! u) \<Longrightarrow> v < num_nodes g \<and> v \<noteq> u"
    using u(2) by blast
qed

lemma count_v_eq:
  assumes "squished g" and "sorted_wrt (<) nu" and "sorted_wrt (<) vs" and "set vs \<subseteq> set nu"
    and "\<forall>v\<in>set vs. v < num_nodes g"
  shows "count_v g u vs nu tot
         = Some (tot + sum_list (map (\<lambda>v. length (filter (\<lambda>w. w \<le> v \<and> w \<in> set nu) (out_neighs g ! v)))
                                   (filter (\<lambda>v. v \<le> u) vs)))"
  using assms(3-)
proof (induction vs arbitrary: tot)
  case Nil
  then show ?case by simp
next
  case (Cons v vs)
  show ?case
  proof (cases "v > u")
    case True
    with Cons.prems(1) have "filter (\<lambda>v. v \<le> u) (v # vs) = []"
      by (auto simp: filter_empty_conv)
    with True show ?thesis by simp
  next
    case False
    from Cons.prems have v: "v < num_nodes g" "v \<in> set nu" by auto
    note sq = squishedD[OF assms(1) v(1)]
    from count_w_eq[OF sq(2) assms(2) v(2)]
    have cw: "count_w (out_neighs g ! v) v nu tot
              = Some (tot + length (filter (\<lambda>w. w \<le> v \<and> w \<in> set nu) (out_neighs g ! v)))" .
    from Cons.prems have "sorted_wrt (<) vs" "set vs \<subseteq> set nu" "\<forall>v\<in>set vs. v < num_nodes g"
      by auto
    from Cons.IH[OF this] cw sq(1) False show ?thesis by (simp add: add.assoc)
  qed
qed

lemma count_u_eq:
  assumes "squished g" and "u < num_nodes g"
  shows "count_u g u tot = Some (tot + tc_vertex g u)"
proof -
  note sq = squishedD[OF assms]
  have "\<forall>v\<in>set (out_neighs g ! u). v < num_nodes g" using sq(3) by auto
  from count_v_eq[OF assms(1) sq(2) sq(2) subset_refl this, of u tot] sq(1)
  show ?thesis by (simp add: count_u_def tc_vertex_def tc_inner_def[abs_def])
qed

lemma for_each_additive:
  assumes "\<forall>x\<in>set xs. \<forall>t. f x t = Some (t + c x)"
  shows "for_each f xs (t::nat) = Some (t + sum_list (map c xs))"
  using assms by (induction xs arbitrary: t) (auto simp: add.assoc)

lemma those_map_Some: "\<forall>x\<in>set xs. f x = Some (h x) \<Longrightarrow> those (map f xs) = Some (map h xs)"
  by (induction xs) auto

lemma concat_blocks: "concat (map (\<lambda>p. [p * w ..< p * w + w]) [0..<k]) = [0..<k * w]"
proof (induction k)
  case 0
  then show ?case by simp
next
  case (Suc k)
  have "[0..<k * w] @ [k * w..<k * w + w] = [0..<k * w + w]"
    using upt_add_eq_append[of 0 "k * w" w] by simp
  with Suc show ?case by (simp add: add.commute)
qed

lemma partition_covers:
  assumes "0 < npes"
  shows "concat (map (\<lambda>pe. [pe * (n div npes) ..<
                             (if pe + 1 < npes then pe * (n div npes) + n div npes else n)])
                     [0..<npes]) = [0..<n]"
proof -
  let ?w = "n div npes"
  let ?r = "\<lambda>pe. [pe * ?w ..< (if pe + 1 < npes then pe * ?w + ?w else n)]"
  obtain k where k: "npes = Suc k" using assms by (cases npes) auto
  have "k * ?w \<le> npes * ?w" using k by simp
  also have "\<dots> \<le> n" by simp
  finally have le: "k * ?w \<le> n" .
  have first: "map ?r [0..<k] = map (\<lambda>p. [p * ?w ..< p * ?w + ?w]) [0..<k]"
    by (rule map_cong) (auto simp: k)
  have last: "?r k = [k * ?w ..< n]"
    by (simp add: k)
  have glue: "[0..<k * ?w] @ [k * ?w..<n] = [0..<n]"
    using upt_add_eq_append[of 0 "k * ?w" "n - k * ?w"] le by simp
  have "concat (map ?r [0..<npes]) = concat (map ?r [0..<k]) @ ?r k"
    unfolding k by simp
  also have "\<dots> = [0..<k * ?w] @ [k * ?w ..< n]"
    unfolding first last concat_blocks ..
  also note glue
  finally show ?thesis .
qed

lemma OrderedCount_sum:
  assumes "squished g" and "0 < npes"
  shows "OrderedCount g npes = Some (sum_list (map (tc_vertex g) [0..<num_nodes g]))"
proof -
  let ?n = "num_nodes g"
  let ?rng = "\<lambda>pe. [pe * (?n div npes) ..<
                      (if pe + 1 < npes then pe * (?n div npes) + ?n div npes else ?n)]"
  have cover: "concat (map ?rng [0..<npes]) = [0..<?n]"
    by (rule partition_covers[OF assms(2)])
  have sub: "x < ?n" if "pe < npes" "x \<in> set (?rng pe)" for pe x
  proof -
    have "?rng pe \<in> ?rng ` set [0..<npes]"
      by (rule image_eqI[where x = pe]) (use that(1) in simp_all)
    then have "set (?rng pe) \<subseteq> set (concat (map ?rng [0..<npes]))"
      unfolding set_concat set_map by blast
    then have "set (?rng pe) \<subseteq> set [0..<?n]" unfolding cover .
    with that(2) have "x \<in> set [0..<?n]" by (rule_tac subsetD)
    then show ?thesis by simp
  qed
  have local: "do { vp \<leftarrow> Partition_new ?n pe npes; OrderedCount_local g vp }
                 = Some (sum_list (map (tc_vertex g) (?rng pe)))"
    if "pe < npes" for pe
  proof -
    have "\<forall>x\<in>set (?rng pe). \<forall>t. count_u g x t = Some (t + tc_vertex g x)"
      using sub[OF that] count_u_eq[OF assms(1)] by blast
    from for_each_additive[OF this, of 0] assms(2) show ?thesis
      by (simp add: Partition_new_def Let_def OrderedCount_local_def)
  qed
  have "those (map (\<lambda>pe. do { vp \<leftarrow> Partition_new ?n pe npes; OrderedCount_local g vp }) [0..<npes])
        = Some (map (\<lambda>pe. sum_list (map (tc_vertex g) (?rng pe))) [0..<npes])"
  proof (rule those_map_Some, rule ballI)
    fix pe assume "pe \<in> set [0..<npes]"
    then have "pe < npes" by simp
    from local[OF this]
    show "do { vp \<leftarrow> Partition_new ?n pe npes; OrderedCount_local g vp }
                 = Some (sum_list (map (tc_vertex g) (?rng pe)))" .
  qed
  then have "OrderedCount g npes
        = Some (sum_list (map (\<lambda>pe. sum_list (map (tc_vertex g) (?rng pe))) [0..<npes]))"
    using assms(2) by (simp add: OrderedCount_def)
  also have "sum_list (map (\<lambda>pe. sum_list (map (tc_vertex g) (?rng pe))) [0..<npes])
        = sum_list (map (tc_vertex g) (concat (map ?rng [0..<npes])))"
    by (simp only: sum_list_map_concat map_map comp_def)
  finally show ?thesis unfolding cover .
qed

lemma sorted_less_distinct: "sorted_wrt (<) (xs::nat list) \<Longrightarrow> distinct xs"
  by (induction xs) auto

lemma undirectedD:
  assumes "undirected g" and "u < num_nodes g" and "v \<in> set (out_neighs g ! u)"
  shows "u \<in> set (out_neighs g ! v)"
proof -
  from assms(1) have "\<forall>u\<in>set [0..<num_nodes g]. \<forall>v\<in>set (out_neighs g ! u). u \<in> set (out_neighs g ! v)"
    unfolding undirected_def list_all_iff .
  moreover from assms(2) have "u \<in> set [0..<num_nodes g]" by simp
  ultimately show ?thesis using assms(3) by blast
qed

lemma tc_inner_card:
  assumes "squished g" and "v < num_nodes g"
  shows "tc_inner g u v = card {w \<in> set (out_neighs g ! v). w \<le> v \<and> w \<in> set (out_neighs g ! u)}"
proof -
  have "distinct (out_neighs g ! v)"
    using squishedD(2)[OF assms] by (rule sorted_less_distinct)
  then have "tc_inner g u v = card ({w. w \<le> v \<and> w \<in> set (out_neighs g ! u)} \<inter> set (out_neighs g ! v))"
    unfolding tc_inner_def by (rule distinct_length_filter)
  also have "{w. w \<le> v \<and> w \<in> set (out_neighs g ! u)} \<inter> set (out_neighs g ! v)
             = {w \<in> set (out_neighs g ! v). w \<le> v \<and> w \<in> set (out_neighs g ! u)}"
    by blast
  finally show ?thesis .
qed

lemma tc_vertex_card:
  assumes "squished g" and "u < num_nodes g"
  shows "tc_vertex g u = (\<Sum>v\<in>{v \<in> set (out_neighs g ! u). v \<le> u}.
            card {w \<in> set (out_neighs g ! v). w \<le> v \<and> w \<in> set (out_neighs g ! u)})"
proof -
  have d: "distinct (filter (\<lambda>v. v \<le> u) (out_neighs g ! u))"
    using squishedD(2)[OF assms] by (simp add: sorted_less_distinct)
  have "tc_vertex g u = sum (tc_inner g u) (set (filter (\<lambda>v. v \<le> u) (out_neighs g ! u)))"
    unfolding tc_vertex_def using d by (rule sum_list_distinct_conv_sum_set)
  also have "set (filter (\<lambda>v. v \<le> u) (out_neighs g ! u)) = {v \<in> set (out_neighs g ! u). v \<le> u}"
    by simp
  also have "sum (tc_inner g u) {v \<in> set (out_neighs g ! u). v \<le> u}
        = (\<Sum>v\<in>{v \<in> set (out_neighs g ! u). v \<le> u}.
            card {w \<in> set (out_neighs g ! v). w \<le> v \<and> w \<in> set (out_neighs g ! u)})"
  proof (rule sum.cong[OF refl])
    fix v assume "v \<in> {v \<in> set (out_neighs g ! u). v \<le> u}"
    then have "v < num_nodes g" using squishedD(3)[OF assms] by blast
    then show "tc_inner g u v = card {w \<in> set (out_neighs g ! v). w \<le> v \<and> w \<in> set (out_neighs g ! u)}"
      by (rule tc_inner_card[OF assms(1)])
  qed
  finally show ?thesis .
qed

lemma sum_tc_vertex_card:
  assumes "squished g"
  shows "sum_list (map (tc_vertex g) [0..<num_nodes g]) = card (tc_triples g)"
proof -
  have "sum_list (map (tc_vertex g) [0..<num_nodes g]) = sum (tc_vertex g) (set [0..<num_nodes g])"
    by (rule sum_list_distinct_conv_sum_set) simp
  also have "set [0..<num_nodes g] = {..<num_nodes g}" by auto
  also have "sum (tc_vertex g) {..<num_nodes g}
      = (\<Sum>u\<in>{..<num_nodes g}. \<Sum>v\<in>{v \<in> set (out_neighs g ! u). v \<le> u}.
            card {w \<in> set (out_neighs g ! v). w \<le> v \<and> w \<in> set (out_neighs g ! u)})"
    by (rule sum.cong[OF refl]) (simp add: tc_vertex_card[OF assms])
  also have "\<dots> = (\<Sum>u\<in>{..<num_nodes g}.
        card (SIGMA v:{v \<in> set (out_neighs g ! u). v \<le> u}.
                {w \<in> set (out_neighs g ! v). w \<le> v \<and> w \<in> set (out_neighs g ! u)}))"
    by (rule sum.cong[OF refl]) (simp add: card_SigmaI)
  also have "\<dots> = card (tc_triples g)"
    unfolding tc_triples_def by (rule card_SigmaI[symmetric]) (auto intro!: finite_SigmaI)
  finally show ?thesis .
qed

lemma brute_force_card:
  "brute_force_triangles g
   = card {(a, b, c). a < b \<and> b < c \<and> c < num_nodes g \<and>
                      adjacent g a b \<and> adjacent g b c \<and> adjacent g a c}"
proof -
  let ?P = "\<lambda>(a, b, c). a < b \<and> b < c \<and> adjacent g a b \<and> adjacent g b c \<and> adjacent g a c"
  let ?xs = "List.product [0..<num_nodes g] (List.product [0..<num_nodes g] [0..<num_nodes g])"
  have "distinct ?xs" by (simp add: distinct_product)
  then have "brute_force_triangles g = card ({x. ?P x} \<inter> set ?xs)"
    unfolding brute_force_triangles_def by (rule distinct_length_filter)
  also have "{x. ?P x} \<inter> set ?xs
     = {(a, b, c). a < b \<and> b < c \<and> c < num_nodes g \<and>
                      adjacent g a b \<and> adjacent g b c \<and> adjacent g a c}"
    by (auto simp: adjacent_def)
  finally show ?thesis .
qed

lemma triples_bij:
  assumes "squished g" and "undirected g"
  shows "(\<lambda>(u, v, w). (w, v, u)) ` tc_triples g
         = {(a, b, c). a < b \<and> b < c \<and> c < num_nodes g \<and>
                      adjacent g a b \<and> adjacent g b c \<and> adjacent g a c}"
proof (intro set_eqI iffI)
  fix x assume "x \<in> (\<lambda>(u, v, w). (w, v, u)) ` tc_triples g"
  then obtain u v w where x: "x = (w, v, u)" and u: "u < num_nodes g"
    and v: "v \<in> set (out_neighs g ! u)" "v \<le> u"
    and w: "w \<in> set (out_neighs g ! v)" "w \<le> v" "w \<in> set (out_neighs g ! u)"
    by (auto simp: tc_triples_def)
  from squishedD(3)[OF assms(1) u v(1)] have vn: "v < num_nodes g" "v \<noteq> u" by auto
  from squishedD(3)[OF assms(1) vn(1) w(1)] have wn: "w < num_nodes g" "w \<noteq> v" by auto
  from undirectedD[OF assms(2) u v(1)] undirectedD[OF assms(2) vn(1) w(1)]
    undirectedD[OF assms(2) u w(3)]
  have "u \<in> set (out_neighs g ! v)" "v \<in> set (out_neighs g ! w)" "u \<in> set (out_neighs g ! w)" .
  with x u v vn wn w show "x \<in> {(a, b, c). a < b \<and> b < c \<and> c < num_nodes g \<and>
                      adjacent g a b \<and> adjacent g b c \<and> adjacent g a c}"
    by (simp add: adjacent_def)
next
  fix x assume "x \<in> {(a, b, c). a < b \<and> b < c \<and> c < num_nodes g \<and>
                      adjacent g a b \<and> adjacent g b c \<and> adjacent g a c}"
  then obtain a b c where x: "x = (a, b, c)" and lt: "a < b" "b < c" "c < num_nodes g"
    and adj: "b \<in> set (out_neighs g ! a)" "c \<in> set (out_neighs g ! b)" "c \<in> set (out_neighs g ! a)"
    by (auto simp: adjacent_def)
  from lt have an: "a < num_nodes g" and bn: "b < num_nodes g" by simp_all
  from undirectedD[OF assms(2) an adj(1)] undirectedD[OF assms(2) bn adj(2)]
    undirectedD[OF assms(2) an adj(3)]
  have "a \<in> set (out_neighs g ! b)" "b \<in> set (out_neighs g ! c)" "a \<in> set (out_neighs g ! c)" .
  with lt have "(c, b, a) \<in> tc_triples g"
    by (simp add: tc_triples_def)
  then show "x \<in> (\<lambda>(u, v, w). (w, v, u)) ` tc_triples g"
    unfolding x by (rule image_eqI[rotated]) simp
qed

lemma tc_sum_brute:
  assumes "squished g" and "undirected g"
  shows "sum_list (map (tc_vertex g) [0..<num_nodes g]) = brute_force_triangles g"
proof -
  have "inj_on (\<lambda>(u, v, w). (w, v, u)) (tc_triples g)"
    by (auto simp: inj_on_def)
  then have "card ((\<lambda>(u, v, w). (w, v, u)) ` tc_triples g) = card (tc_triples g)"
    by (rule card_image)
  then show ?thesis
    unfolding sum_tc_vertex_card[OF assms(1)] brute_force_card triples_bij[OF assms] by simp
qed

text \<open>
  Claim C4. On every undirected, squished graph and for every number of PEs,
  \<open>OrderedCount\<close> returns, and returns the number of vertex triples that are pairwise
  adjacent, as the enumeration \<open>brute_force_triangles\<close> counts them; on the triangle
  \<open>K3\<close> it returns 1 and on the path 0-1-2-3-4-5 it returns 0.
\<close>

theorem OrderedCount_counts_triangles:
  "(\<forall>g npes. squished g \<and> undirected g \<and> 0 < npes \<longrightarrow>
      OrderedCount g npes = Some (brute_force_triangles g)) \<and>
   OrderedCount K3 1 = Some 1 \<and> OrderedCount path_graph 1 = Some 0"
proof (intro conjI allI impI)
  fix g :: Graph and npes :: nat
  assume "squished g \<and> undirected g \<and> 0 < npes"
  then show "OrderedCount g npes = Some (brute_force_triangles g)"
    using OrderedCount_sum[of g npes] tc_sum_brute[of g] by simp
next
  show "OrderedCount K3 1 = Some 1" by code_simp
  show "OrderedCount path_graph 1 = Some 0" by code_simp
qed

theorem OrderedCount_counts_triangles_witness:
  "squished K4 \<and> undirected K4 \<and> OrderedCount K4 2 = Some (brute_force_triangles K4) \<and>
   brute_force_triangles K4 = 4"
proof -
  have a: "squished K4" and b: "undirected K4" and c: "brute_force_triangles K4 = 4"
    by code_simp+
  from OrderedCount_counts_triangles a b have "OrderedCount K4 2 = Some (brute_force_triangles K4)"
    by simp
  with a b c show ?thesis by simp
qed

section \<open>Proofs: the builder\<close>

lemma distinct_remdups_adj_sorted:
  "sorted (xs::'a::linorder list) \<Longrightarrow> distinct (remdups_adj xs)"
proof (induction xs rule: remdups_adj.induct)
  case 1
  then show ?case by simp
next
  case (2 x)
  then show ?case by simp
next
  case (3 x y xs)
  then show ?case by (cases "x = y") (auto simp: dest: order.antisym)
qed

lemma squish_neighbors_strict:
  "sorted_wrt (<) (squish_neighbors eq_node n xs)"
proof -
  have "sorted (remdups_adj (sort xs))" by simp
  moreover have "distinct (remdups_adj (sort xs))"
    by (rule distinct_remdups_adj_sorted) simp
  ultimately have "sorted_wrt (<) (remdups_adj (sort xs))"
    by (simp add: strict_sorted_iff)
  then show ?thesis
    unfolding squish_neighbors_def by (rule sorted_wrt_filter)
qed

lemma squish_neighbors_no_self:
  "e \<in> set (squish_neighbors eq_node n xs) \<Longrightarrow> \<not> eq_node e n"
  by (simp add: squish_neighbors_def)

lemma squish_neighbors_set:
  "set (squish_neighbors eq_node n xs) = {e \<in> set xs. \<not> eq_node e n}"
  by (auto simp: squish_neighbors_def)

lemma running_length [simp]: "length (running t ds) = length ds"
  by (induction ds arbitrary: t) auto

lemma running_append:
  "running t (xs @ ys) = running t xs @ running (t + sum_list xs) ys"
  by (induction xs arbitrary: t) (auto simp: add.assoc)

lemma running_nth:
  "i < length ds \<Longrightarrow> running t ds ! i = t + sum_list (take i ds)"
proof (induction ds arbitrary: t i)
  case Nil
  then show ?case by simp
next
  case (Cons d ds)
  then show ?case by (cases i) (auto simp: add.assoc)
qed

lemma PrefixSum_nth:
  "i \<le> length ds \<Longrightarrow> PrefixSum ds ! i = sum_list (take i ds)"
  by (cases "i = length ds") (auto simp: PrefixSum_def nth_append running_nth)

lemma PrefixSum_length [simp]: "length (PrefixSum ds) = length ds + 1"
  by (simp add: PrefixSum_def)

text \<open>Blocks of a list.\<close>

lemma running_blocks:
  assumes "0 < bs"
  shows "concat (map (\<lambda>b. running (t + sum_list (take (b * bs) ds)) (take bs (drop (b * bs) ds))) [0..<k])
         = running t (take (k * bs) ds)"
proof (induction k)
  case 0
  then show ?case by simp
next
  case (Suc k)
  have "take (k * bs + bs) ds = take (k * bs) ds @ take bs (drop (k * bs) ds)"
    by (rule take_add)
  moreover have "Suc k * bs = k * bs + bs" by simp
  ultimately have "take (Suc k * bs) ds = take (k * bs) ds @ take bs (drop (k * bs) ds)"
    by (simp only:)
  then show ?case
    using Suc by (simp add: running_append)
qed

lemma sum_blocks:
  assumes "0 < bs"
  shows "sum_list (map (\<lambda>b. sum_list (take bs (drop (b * bs) ds))) [0..<k]) = sum_list (take (k * bs) ds)"
proof (induction k)
  case 0
  then show ?case by simp
next
  case (Suc k)
  have "take (k * bs + bs) ds = take (k * bs) ds @ take bs (drop (k * bs) ds)"
    by (rule take_add)
  moreover have "Suc k * bs = k * bs + bs" by simp
  ultimately have "take (Suc k * bs) ds = take (k * bs) ds @ take bs (drop (k * bs) ds)"
    by (simp only:)
  then show ?case using Suc by simp
qed

lemma num_blocks_cover:
  assumes "0 < (bs::nat)"
  shows "n \<le> ((n + bs - 1) div bs) * bs"
proof -
  have "n + bs - 1 = ((n + bs - 1) div bs) * bs + (n + bs - 1) mod bs"
    by simp
  moreover have "(n + bs - 1) mod bs < bs" using assms by simp
  ultimately show ?thesis by linarith
qed

lemma ParallelPrefixSum_generic:
  fixes ds :: "nat list"
  assumes "0 < bs"
  defines "nb \<equiv> (length ds + bs - 1) div bs"
  defines "block \<equiv> (\<lambda>b. take bs (drop (b * bs) ds))"
  defines "local_sums \<equiv> map (\<lambda>b. sum_list (block b)) [0..<nb]"
  defines "bulk_prefix \<equiv> running 0 local_sums @ [sum_list local_sums]"
  shows "concat (map (\<lambda>b. running (bulk_prefix ! b) (block b)) [0..<nb]) @ [bulk_prefix ! nb]
         = running 0 ds @ [sum_list ds]"
proof -
  have len: "length local_sums = nb" by (simp add: local_sums_def)
  have take_ls: "sum_list (take b local_sums) = sum_list (take (b * bs) ds)" if "b \<le> nb" for b
  proof -
    from that have "take b local_sums = map (\<lambda>b. sum_list (block b)) [0..<b]"
      by (simp add: local_sums_def take_map min_def)
    then show ?thesis using sum_blocks[OF assms(1), of ds b] by (simp add: block_def)
  qed
  have bp: "bulk_prefix ! b = sum_list (take (b * bs) ds)" if "b \<le> nb" for b
  proof (cases "b = nb")
    case True
    then show ?thesis using take_ls[of nb] len by (simp add: bulk_prefix_def nth_append)
  next
    case False
    with that have "b < nb" by simp
    then show ?thesis using take_ls[of b] len by (simp add: bulk_prefix_def nth_append running_nth)
  qed
  have all: "take (nb * bs) ds = ds"
    using num_blocks_cover[OF assms(1), of "length ds"] by (simp add: nb_def)
  have m: "map (\<lambda>b. running (bulk_prefix ! b) (block b)) [0..<nb]
        = map (\<lambda>b. running (0 + sum_list (take (b * bs) ds)) (take bs (drop (b * bs) ds))) [0..<nb]"
    by (rule map_cong) (auto simp: bp block_def)
  have "concat (map (\<lambda>b. running (bulk_prefix ! b) (block b)) [0..<nb]) = running 0 (take (nb * bs) ds)"
    unfolding m by (rule running_blocks[OF assms(1)])
  with bp[of nb] all show ?thesis by simp
qed

lemma ParallelPrefixSum_eq: "ParallelPrefixSum ds = PrefixSum ds"
proof -
  have "0 < block_size" by (simp add: block_size_def)
  from ParallelPrefixSum_generic[OF this, of ds] show ?thesis
    by (simp add: ParallelPrefixSum_def PrefixSum_def Let_def)
qed

declare ParallelPrefixSum_eq [code]

lemma those_map_nth:
  "those (map f xs) = Some ys \<Longrightarrow> length ys = length xs \<and> (\<forall>i<length xs. f (xs ! i) = Some (ys ! i))"
proof (induction xs arbitrary: ys)
  case Nil
  then show ?case by simp
next
  case (Cons x xs)
  from Cons.prems obtain y zs where y: "f x = Some y" and zs: "those (map f xs) = Some zs"
    and ys: "ys = y # zs"
    by (auto split: option.splits)
  from Cons.IH[OF zs] y ys show ?case
    by (auto simp: nth_Cons split: nat.splits)
qed

lemma Partition_new_fields:
  assumes "Partition_new n pe npes = Some vp"
  shows "0 < npes" and "vp_npes vp = npes" and "vp_partition_width vp = n div npes"
    and "vp_start vp = pe * (n div npes)"
    and "vp_end vp = (if pe + 1 < npes then pe * (n div npes) + n div npes else n)"
    and "vp_max_width vp = n - (npes - 1) * (n div npes)"
  using assms by (auto simp: Partition_new_def Let_def split: if_splits)

lemma local_pos_own:
  assumes vp: "Partition_new n pe npes = Some vp" and pe: "pe < npes"
    and v: "vp_start vp \<le> v" "v < vp_end vp"
    and lp: "vp_local_pos vp v = Some i"
  shows "i = v - vp_start vp"
proof -
  note f = Partition_new_fields[OF vp]
  let ?w = "n div npes"
  from lp have w: "0 < ?w" and i: "i = v - min (v div ?w) (npes - 1) * ?w"
    by (auto simp: vp_local_pos_def vp_recv_def cpp_div_def f bind_eq_Some_conv split: if_splits)
  have "min (v div ?w) (npes - 1) = pe"
  proof (cases "pe + 1 < npes")
    case True
    with v f have "pe * ?w \<le> v" "v < pe * ?w + ?w" by auto
    then have "v div ?w = pe"
      using w by (metis add.commute div_nat_eqI mult.commute mult_Suc_right)
    with True show ?thesis by simp
  next
    case False
    with pe have last: "pe = npes - 1" by simp
    from v f have "pe * ?w \<le> v" by simp
    then have "pe \<le> v div ?w" using w
      by (simp add: less_eq_div_iff_mult_less_eq)
    with last show ?thesis by simp
  qed
  with i f show ?thesis by simp
qed

lemma squish_sort_result:
  assumes ss: "squish_sort eq_node vp nbrs fresh = Some (nb', diffs)"
    and vp: "Partition_new n pe npes = Some vp" and pe: "pe < npes"
  shows "\<forall>v. vp_start vp \<le> v \<and> v < vp_end vp \<longrightarrow>
           v - vp_start vp < length nb' \<and> v - vp_start vp < length diffs \<and>
           nb' ! (v - vp_start vp) = squish_neighbors eq_node v (nbrs ! (v - vp_start vp)) \<and>
           diffs ! (v - vp_start vp) = length (nb' ! (v - vp_start vp))"
proof -
  let ?s = "vp_start vp"
  let ?body = "\<lambda>n (nbrs, diffs).
         do { indx \<leftarrow> vp_local_pos vp n;
              xs \<leftarrow> rd nbrs indx;
              let ys = squish_neighbors eq_node n xs;
              diffs' \<leftarrow> wr diffs indx (length ys);
              Some (nbrs[indx := ys], diffs') }"
  let ?Q = "\<lambda>k (nb, df). length nb = length nbrs \<and>
              (\<forall>v. ?s \<le> v \<and> v < k \<longrightarrow>
                 v - ?s < length nb \<and> v - ?s < length df \<and>
                 nb ! (v - ?s) = squish_neighbors eq_node v (nbrs ! (v - ?s)) \<and>
                 df ! (v - ?s) = length (nb ! (v - ?s))) \<and>
              (\<forall>i. k - ?s \<le> i \<longrightarrow> nb ! i = nbrs ! i)"
  have fe: "for_each ?body [?s..<vp_end vp] (nbrs, take (vp_max_width vp) fresh) = Some (nb', diffs)"
    using ss by (simp add: squish_sort_def)
  show ?thesis
  proof (cases "?s \<le> vp_end vp")
    case False
    then show ?thesis by auto
  next
    case True
    have "?Q (vp_end vp) (nb', diffs)"
    proof (rule for_each_range_invariant[OF fe _ True, where Q = ?Q])
      show "?Q ?s (nbrs, take (vp_max_width vp) fresh)" by auto
    next
      fix k st st'
      assume k: "?s \<le> k" "k < vp_end vp" and q: "?Q k st" and step: "?body k st = Some st'"
      obtain nb df where st: "st = (nb, df)" by (cases st)
      from step st obtain indx where lp: "vp_local_pos vp k = Some indx"
        and i1: "indx < length nb" and i2: "indx < length df"
        and st': "st' = (nb[indx := squish_neighbors eq_node k (nb ! indx)],
                        df[indx := length (squish_neighbors eq_node k (nb ! indx))])"
        by (auto simp: bind_eq_Some_conv rd_Some wr_Some Let_def)
      from local_pos_own[OF vp pe k lp] have indx: "indx = k - ?s" .
      from q st have len: "length nb = length nbrs"
        and dn: "\<forall>v. ?s \<le> v \<and> v < k \<longrightarrow>
                 v - ?s < length nb \<and> v - ?s < length df \<and>
                 nb ! (v - ?s) = squish_neighbors eq_node v (nbrs ! (v - ?s)) \<and>
                 df ! (v - ?s) = length (nb ! (v - ?s))"
        and rest: "\<forall>i. k - ?s \<le> i \<longrightarrow> nb ! i = nbrs ! i"
        by auto
      from rest indx have cur: "nb ! indx = nbrs ! indx" by simp
      have "\<forall>v. ?s \<le> v \<and> v < Suc k \<longrightarrow>
                 v - ?s < length nb \<and> v - ?s < length df \<and>
                 (nb[indx := squish_neighbors eq_node k (nb ! indx)]) ! (v - ?s)
                    = squish_neighbors eq_node v (nbrs ! (v - ?s)) \<and>
                 (df[indx := length (squish_neighbors eq_node k (nb ! indx))]) ! (v - ?s)
                    = length ((nb[indx := squish_neighbors eq_node k (nb ! indx)]) ! (v - ?s))"
      proof (intro allI impI)
        fix v assume v: "?s \<le> v \<and> v < Suc k"
        show "v - ?s < length nb \<and> v - ?s < length df \<and>
                 (nb[indx := squish_neighbors eq_node k (nb ! indx)]) ! (v - ?s)
                    = squish_neighbors eq_node v (nbrs ! (v - ?s)) \<and>
                 (df[indx := length (squish_neighbors eq_node k (nb ! indx))]) ! (v - ?s)
                    = length ((nb[indx := squish_neighbors eq_node k (nb ! indx)]) ! (v - ?s))"
        proof (cases "v = k")
          case True
          with i1 i2 indx cur show ?thesis by simp
        next
          case False
          with v have vk: "v < k" by simp
          with v k have ne: "v - ?s \<noteq> indx" using indx by linarith
          from dn v vk ne show ?thesis by simp
        qed
      qed
      moreover have "\<forall>i. Suc k - ?s \<le> i \<longrightarrow> (nb[indx := squish_neighbors eq_node k (nb ! indx)]) ! i = nbrs ! i"
        using rest indx k by (auto simp: nth_list_update)
      ultimately show "?Q (Suc k) st'"
        using st' len by simp
    qed
    then show ?thesis by auto
  qed
qed

lemma take_drop_within:
  assumes "a + d \<le> k" and "take k zs = take k xs"
  shows "take d (drop a zs) = take d (drop a xs)"
proof -
  have "take d (drop a zs) = take d (drop a (take k zs))"
    using assms(1) by (simp add: drop_take min_def)
  also have "\<dots> = take d (drop a (take k xs))" by (simp only: assms(2))
  also have "\<dots> = take d (drop a xs)"
    using assms(1) by (simp add: drop_take min_def)
  finally show ?thesis .
qed

lemma sum_take_mono: "i \<le> j \<Longrightarrow> sum_list (take i (ds::nat list)) \<le> sum_list (take j ds)"
proof -
  assume "i \<le> j"
  then have "take j ds = take i ds @ take (j - i) (drop i ds)"
    by (metis le_add_diff_inverse take_add)
  then show ?thesis by simp
qed

lemma sum_take_Suc:
  "i < length (ds::nat list) \<Longrightarrow> sum_list (take (Suc i) ds) = sum_list (take i ds) + ds ! i"
  by (simp add: take_Suc_conv_app_nth)

lemma squish_copy_result:
  assumes sc: "squish_copy vp nb diffs (GenIndex (PrefixSum diffs) (replicate m z)) = Some c"
    and vp: "Partition_new n pe npes = Some vp" and pe: "pe < npes"
    and nb: "\<forall>v. vp_start vp \<le> v \<and> v < vp_end vp \<longrightarrow>
           v - vp_start vp < length nb \<and> v - vp_start vp < length diffs \<and>
           diffs ! (v - vp_start vp) = length (nb ! (v - vp_start vp))"
  shows "\<forall>v. vp_start vp \<le> v \<and> v < vp_end vp \<longrightarrow>
           csr_neigh c (v - vp_start vp) = Some (nb ! (v - vp_start vp))"
proof -
  let ?s = "vp_start vp"
  let ?off = "PrefixSum diffs"
  let ?body = "\<lambda>n c.
         do { indx \<leftarrow> vp_local_pos vp n;
              xs \<leftarrow> rd nb indx;
              d \<leftarrow> rd diffs indx;
              a \<leftarrow> rd (csr_index c) indx;
              if d \<le> length xs
              then do { s \<leftarrow> write_range (csr_neighs c) a (take d xs);
                        Some (c\<lparr>csr_neighs := s\<rparr>) }
              else None }"
  let ?Q = "\<lambda>k c. csr_index c = ?off \<and> length (csr_neighs c) = m \<and>
              sum_list (take (k - ?s) diffs) \<le> m \<and>
              (\<forall>v. ?s \<le> v \<and> v < k \<longrightarrow>
                 take (diffs ! (v - ?s)) (drop (sum_list (take (v - ?s) diffs)) (csr_neighs c))
                   = nb ! (v - ?s))"
  have fe: "for_each ?body [?s..<vp_end vp] (GenIndex ?off (replicate m z)) = Some c"
    using sc by (simp add: squish_copy_def)
  show ?thesis
  proof (cases "?s \<le> vp_end vp")
    case False
    then show ?thesis by auto
  next
    case True
    have "?Q (vp_end vp) c"
    proof (rule for_each_range_invariant[OF fe _ True, where Q = ?Q])
      show "?Q ?s (GenIndex ?off (replicate m z))" by (auto simp: GenIndex_def)
    next
      fix k c0 c1
      assume k: "?s \<le> k" "k < vp_end vp" and q: "?Q k c0" and step: "?body k c0 = Some c1"
      from nb k have i1: "k - ?s < length nb" and i2: "k - ?s < length diffs"
        and dk: "diffs ! (k - ?s) = length (nb ! (k - ?s))" by auto
      from q have idx: "csr_index c0 = ?off" and len: "length (csr_neighs c0) = m"
        and below: "sum_list (take (k - ?s) diffs) \<le> m"
        and dn: "\<forall>v. ?s \<le> v \<and> v < k \<longrightarrow>
                 take (diffs ! (v - ?s)) (drop (sum_list (take (v - ?s) diffs)) (csr_neighs c0))
                   = nb ! (v - ?s)"
        by auto
      from step obtain indx where lp: "vp_local_pos vp k = Some indx"
        by (auto simp: bind_eq_Some_conv)
      from local_pos_own[OF vp pe k lp] have indx: "indx = k - ?s" .
      have a: "rd ?off (k - ?s) = Some (sum_list (take (k - ?s) diffs))"
        using i2 by (simp add: rd_Some PrefixSum_nth)
      from step lp indx i1 i2 dk idx a obtain s where
        wrr: "write_range (csr_neighs c0) (sum_list (take (k - ?s) diffs)) (nb ! (k - ?s)) = Some s"
        and c1: "c1 = c0\<lparr>csr_neighs := s\<rparr>"
        by (auto simp: bind_eq_Some_conv rd_Some split: if_splits)
      note w = write_range_Some[OF wrr]
      let ?a = "sum_list (take (k - ?s) diffs)"
      have sk: "Suc k - ?s = Suc (k - ?s)" using k by simp
      have nxt: "sum_list (take (Suc k - ?s) diffs) = ?a + length (nb ! (k - ?s))"
        using sum_take_Suc[OF i2] dk sk by simp
      have fits: "?a + length (nb ! (k - ?s)) \<le> m"
      proof (cases "nb ! (k - ?s) = []")
        case True
        with below show ?thesis by simp
      next
        case False
        with wrr len show ?thesis
          by (auto simp: write_range_def split: if_splits)
      qed
      have "\<forall>v. ?s \<le> v \<and> v < Suc k \<longrightarrow>
                 take (diffs ! (v - ?s)) (drop (sum_list (take (v - ?s) diffs)) s) = nb ! (v - ?s)"
      proof (intro allI impI)
        fix v assume v: "?s \<le> v \<and> v < Suc k"
        show "take (diffs ! (v - ?s)) (drop (sum_list (take (v - ?s) diffs)) s) = nb ! (v - ?s)"
        proof (cases "v = k")
          case True
          with w(3) dk show ?thesis by simp
        next
          case False
          with v have vk: "v < k" by simp
          with v have lt: "v - ?s < length diffs" "Suc (v - ?s) \<le> k - ?s" using i2 by auto
          have "sum_list (take (v - ?s) diffs) + diffs ! (v - ?s) = sum_list (take (Suc (v - ?s)) diffs)"
            using sum_take_Suc[OF lt(1)] by simp
          also have "\<dots> \<le> ?a" by (rule sum_take_mono[OF lt(2)])
          finally have le: "sum_list (take (v - ?s) diffs) + diffs ! (v - ?s) \<le> ?a" .
          have "take (diffs ! (v - ?s)) (drop (sum_list (take (v - ?s) diffs)) s)
                = take (diffs ! (v - ?s)) (drop (sum_list (take (v - ?s) diffs)) (csr_neighs c0))"
            by (rule take_drop_within[OF le w(2)])
          with dn v vk show ?thesis by simp
        qed
      qed
      with c1 idx len w(1) nxt fits show "?Q (Suc k) c1" by simp
    qed
    then have idx: "csr_index c = ?off" and len: "length (csr_neighs c) = m"
      and tot: "sum_list (take (vp_end vp - ?s) diffs) \<le> m"
      and sl: "\<forall>v. ?s \<le> v \<and> v < vp_end vp \<longrightarrow>
                 take (diffs ! (v - ?s)) (drop (sum_list (take (v - ?s) diffs)) (csr_neighs c))
                   = nb ! (v - ?s)"
      by auto
    show ?thesis
    proof (intro allI impI)
      fix v assume v: "?s \<le> v \<and> v < vp_end vp"
      with nb have i2: "v - ?s < length diffs" by auto
      from v have le: "Suc (v - ?s) \<le> vp_end vp - ?s" by auto
      have b: "sum_list (take (Suc (v - ?s)) diffs) \<le> m"
        using sum_take_mono[OF le, of diffs] tot by simp
      have e: "sum_list (take (Suc (v - ?s)) diffs) = sum_list (take (v - ?s) diffs) + diffs ! (v - ?s)"
        by (rule sum_take_Suc[OF i2])
      have r1: "rd ?off (v - ?s) = Some (sum_list (take (v - ?s) diffs))"
        using i2 by (simp add: rd_Some PrefixSum_nth)
      have r2: "rd ?off (v - ?s + 1) = Some (sum_list (take (Suc (v - ?s)) diffs))"
        using i2 by (simp add: rd_Some PrefixSum_nth)
      from sl v have "take (diffs ! (v - ?s)) (drop (sum_list (take (v - ?s) diffs)) (csr_neighs c))
                   = nb ! (v - ?s)" by simp
      with r1 r2 b e idx len show "csr_neigh c (v - ?s) = Some (nb ! (v - ?s))"
        by (simp add: csr_neigh_def)
    qed
  qed
qed

text \<open>
Claim C6. Whenever \<open>SquishCSR\<close> returns on the adjacency arrays of a built graph,
  every vertex \<open>v\<close> of every rank's slice has a neighbour list in the produced CSR: it is the
  input list of \<open>v\<close> sorted, with adjacent repetitions and the entries equal to \<open>v\<close> removed, so
  it is strictly increasing (ascending, no duplicates) and holds no self loop. The contents of
  the uninitialised \<open>diffs\<close> array and the comparison of an entry with a vertex id are
  arbitrary.
\<close>

theorem SquishCSR_sorted_unique_no_self:
  assumes sq: "SquishCSR eq_node n room nbrs fresh = Some csrs"
    and pe: "pe < length nbrs"
    and vp: "Partition_new n pe (length nbrs) = Some vp"
    and v: "vp_start vp \<le> v" "v < vp_end vp"
  shows "\<exists>xs. csr_neigh (csrs ! pe) (v - vp_start vp) = Some xs \<and>
           xs = squish_neighbors eq_node v (nbrs ! pe ! (v - vp_start vp)) \<and>
           sorted_wrt (<) xs \<and> list_all (\<lambda>e. \<not> eq_node e v) xs"
proof -
  let ?npes = "length nbrs"
  let ?f = "\<lambda>pe. do { vp \<leftarrow> Partition_new n pe ?npes;
                    nb \<leftarrow> rd nbrs pe;
                    fr \<leftarrow> rd fresh pe;
                    (nb', diffs) \<leftarrow> squish_sort eq_node vp nb fr;
                    let sq_offsets = ParallelPrefixSum diffs;
                    tot \<leftarrow> rd sq_offsets (vp_end vp - vp_start vp);
                    Some (vp, nb', diffs, sq_offsets, tot) }"
  let ?g = "\<lambda>max_neigh (vp, nb', diffs, sq_offsets, tot).
                       squish_copy vp nb' diffs (GenIndex sq_offsets (replicate max_neigh 0))"
  from sq obtain sorted_l where st: "those (map ?f [0..<?npes]) = Some sorted_l"
    and cp: "those (map (?g (foldr max (map (\<lambda>(vp, nb', diffs, sq_offsets, tot). tot) sorted_l) 0)) sorted_l) = Some csrs"
    by (auto simp: SquishCSR_def Let_def bind_eq_Some_conv split: if_splits)
  let ?m = "foldr max (map (\<lambda>(vp, nb', diffs, sq_offsets, tot). tot) sorted_l) 0"
  from those_map_nth[OF st] pe have ls: "length sorted_l = ?npes"
    and fpe: "?f pe = Some (sorted_l ! pe)" by auto
  from fpe vp pe obtain nb' diffs tot where
    ss: "squish_sort eq_node vp (nbrs ! pe) (fresh ! pe) = Some (nb', diffs)"
    and sp: "sorted_l ! pe = (vp, nb', diffs, PrefixSum diffs, tot)"
    by (auto simp: bind_eq_Some_conv rd_Some Let_def ParallelPrefixSum_eq split: prod.splits) metis
  from those_map_nth[OF cp] pe ls have "?g ?m (sorted_l ! pe) = Some (csrs ! pe)" by auto
  with sp have sc: "squish_copy vp nb' diffs (GenIndex (PrefixSum diffs) (replicate ?m 0)) = Some (csrs ! pe)"
    by simp
  note r = squish_sort_result[OF ss vp pe]
  have "\<forall>v. vp_start vp \<le> v \<and> v < vp_end vp \<longrightarrow>
           csr_neigh (csrs ! pe) (v - vp_start vp) = Some (nb' ! (v - vp_start vp))"
    by (rule squish_copy_result[OF sc vp pe]) (use r in blast)
  with v r have "csr_neigh (csrs ! pe) (v - vp_start vp)
      = Some (squish_neighbors eq_node v (nbrs ! pe ! (v - vp_start vp)))"
    by simp
  moreover have "list_all (\<lambda>e. \<not> eq_node e v) (squish_neighbors eq_node v (nbrs ! pe ! (v - vp_start vp)))"
    unfolding list_all_iff using squish_neighbors_no_self by blast
  ultimately show ?thesis
    using squish_neighbors_strict by blast
qed

theorem SquishCSR_sorted_unique_no_self_witness:
  "\<exists>csrs vp xs. SquishCSR (=) 4 True squish_input squish_fresh = Some csrs \<and>
      Partition_new 4 1 2 = Some vp \<and> vp_start vp = 2 \<and> vp_end vp = 4 \<and>
      csr_neigh (csrs ! 1) (2 - vp_start vp) = Some xs \<and>
      xs = squish_neighbors (=) 2 (squish_input ! 1 ! (2 - vp_start vp)) \<and>
      sorted_wrt (<) xs \<and> list_all (\<lambda>e. \<not> e = 2) xs"
proof -
  have "SquishCSR (=) 4 True squish_input squish_fresh \<noteq> None" by code_simp
  then obtain csrs where sq: "SquishCSR (=) 4 True squish_input squish_fresh = Some csrs"
    by blast
  have len: "length squish_input = 2" by (simp add: squish_input_def)
  have "Partition_new 4 1 2 \<noteq> None" by code_simp
  then obtain vp where vp: "Partition_new 4 1 2 = Some vp" by blast
  have s: "vp_start vp = 2" and e: "vp_end vp = 4"
    using Partition_new_fields[OF vp] by simp_all
  have pe: "1 < length squish_input" by (simp add: len)
  have vp': "Partition_new 4 1 (length squish_input) = Some vp" using vp len by simp
  have v1: "vp_start vp \<le> 2" and v2: "2 < vp_end vp" using s e by simp_all
  from SquishCSR_sorted_unique_no_self[OF sq pe vp' v1 v2] sq vp s e
  show ?thesis by blast
qed

section \<open>Proofs: the verifiers\<close>

declare serial_bfs.simps [code]

lemma check_in_Some:
  assumes "check_in depth parent u ns = Some r"
  shows "(r = None) = list_ex (\<lambda>v. int v = parent ! u \<and> depth ! v = depth ! u - 1) ns"
  using assms
proof (induction ns)
  case Nil
  then show ?case by (auto simp: bind_eq_Some_conv)
next
  case (Cons v vs)
  from Cons.prems obtain pu where pu: "rd parent u = Some pu"
    by (auto simp: bind_eq_Some_conv)
  then have pu': "pu = parent ! u" by (simp add: rd_Some)
  show ?case
  proof (cases "int v = pu")
    case False
    with Cons pu pu' show ?thesis by simp
  next
    case True
    with Cons.prems pu obtain dv du where dv: "rd depth v = Some dv" and du: "rd depth u = Some du"
      and r: "r = (if dv \<noteq> du - 1 then Some (WrongDepths u v) else None)"
      by (auto simp: bind_eq_Some_conv split: if_splits)
    from dv du have e: "dv = depth ! v" "du = depth ! u" by (simp_all add: rd_Some)
    show ?thesis
    proof (cases "dv = du - 1")
      case True
      with r e \<open>int v = pu\<close> pu' show ?thesis by simp
    next
      case False
      have "\<not> list_ex (\<lambda>w. int w = parent ! u \<and> depth ! w = depth ! u - 1) (v # vs)"
        using False e True pu' by (auto simp: list_ex_iff) (metis of_nat_eq_iff)
      with r False show ?thesis by simp
    qed
  qed
qed

lemma check_vertex_Some:
  assumes "check_vertex g source depth parent u = Some r"
  shows "(r = None) = vertex_agrees g source depth parent u"
proof -
  from assms have b: "u < length depth" "u < length parent"
    by (auto simp: check_vertex_def bind_eq_Some_conv rd_Some)
  then have rd: "rd depth u = Some (depth ! u)" "rd parent u = Some (parent ! u)"
    by (simp_all add: rd_def)
  show ?thesis
  proof (cases "depth ! u \<noteq> - 1 \<and> parent ! u \<noteq> - 1")
    case False
    with assms rd show ?thesis
      by (auto simp: check_vertex_def vertex_agrees_def split: if_splits)
  next
    case True
    note both = this
    show ?thesis
    proof (cases "u = source")
      case True
      with assms rd both show ?thesis
        by (auto simp: check_vertex_def vertex_agrees_def split: if_splits)
    next
      case False
      with assms rd both obtain ns where ns: "in_neigh g u = Some ns"
        and ci: "check_in depth parent u ns = Some r"
        by (auto simp: check_vertex_def bind_eq_Some_conv)
      from ns have "ns = in_neighs g ! u"
        by (auto simp: in_neigh_def rd_Some split: if_splits)
      with check_in_Some[OF ci] both False show ?thesis
        by (simp add: vertex_agrees_def)
    qed
  qed
qed

lemma check_all_Some:
  assumes "check_all g source depth parent us = Some r"
  shows "(r = None) = list_all (vertex_agrees g source depth parent) us"
  using assms
proof (induction us)
  case Nil
  then show ?case by simp
next
  case (Cons u us)
  from Cons.prems obtain r1 where r1: "check_vertex g source depth parent u = Some r1"
    by (auto simp: bind_eq_Some_conv)
  note a = check_vertex_Some[OF r1]
  show ?case
  proof (cases r1)
    case None
    with Cons r1 a show ?thesis by simp
  next
    case (Some w)
    with Cons.prems r1 a show ?thesis by auto
  qed
qed

lemma BFSVerifier_verdict:
  assumes "BFSVerifier g source parent = Some (ok, out)"
  shows "\<exists>depth. serial_depths g source = Some depth \<and> ok = bfs_agrees g source depth parent \<and>
           (if ok then out = [] else \<exists>w. out = [w])"
proof -
  from assms obtain depth r where d: "serial_depths g source = Some depth"
    and r: "check_all g source depth parent [0..<num_nodes g] = Some r"
    and o: "(ok, out) = (case r of None \<Rightarrow> (True, []) | Some w \<Rightarrow> (False, [w]))"
    by (auto simp: BFSVerifier_def bind_eq_Some_conv)
  from check_all_Some[OF r] o d show ?thesis
    by (cases r) (auto simp: bfs_agrees_def)
qed

text \<open>The serial traversal returns.\<close>

lemma count_list_update:
  assumes "i < length xs" and "xs ! i = a" and "y \<noteq> a"
  shows "Suc (count_list (xs[i := y]) a) = count_list xs a"
  using assms
proof (induction xs arbitrary: i)
  case Nil
  then show ?case by simp
next
  case (Cons x xs)
  then show ?case by (cases i) auto
qed

lemma visit_out_inv:
  assumes "bfs_inv n st" and "u < n" and "v < n"
  shows "\<exists>st'. visit_out n u v st = Some st' \<and> bfs_inv n st' \<and> length (snd st) \<le> length (snd st')"
proof -
  obtain depth q where st: "st = (depth, q)" by (cases st)
  from assms(1) have len: "length depth = n" and cnt: "length q + count_list depth (- 1) = n"
    and q: "list_all (\<lambda>v. v < n) q" and lo: "list_all (\<lambda>d. - 1 \<le> d) depth"
    by (simp_all add: bfs_inv_def st)
  show ?thesis
  proof (cases "depth ! v = - 1")
    case False
    with st len assms show ?thesis by (simp add: visit_out_def rd_def)
  next
    case True
    from lo len assms(2) have "- 1 \<le> depth ! u" by (simp add: list_all_length)
    then have ne: "depth ! u + 1 \<noteq> - 1" by simp
    from count_list_update[OF _ True ne] len assms(3)
    have c: "Suc (count_list (depth[v := depth ! u + 1]) (- 1)) = count_list depth (- 1)" by simp
    with cnt have room: "length q < n" by linarith
    have lo': "list_all (\<lambda>d. - 1 \<le> d) (depth[v := depth ! u + 1])"
      using lo \<open>- 1 \<le> depth ! u\<close> len assms(3)
      by (auto simp: list_all_length nth_list_update)
    have "visit_out n u v st = Some (depth[v := depth ! u + 1], q @ [v])"
      using True st len assms(2,3) room by (simp add: visit_out_def rd_def wr_def)
    moreover have "bfs_inv n (depth[v := depth ! u + 1], q @ [v])"
      using len cnt c q lo' assms(3) by (simp add: bfs_inv_def)
    ultimately show ?thesis using st by simp
  qed
qed

lemma for_each_visit_out_inv:
  assumes "list_all (\<lambda>v. v < n) ns" and "bfs_inv n st" and "u < n"
  shows "\<exists>st'. for_each (visit_out n u) ns st = Some st' \<and> bfs_inv n st' \<and>
           length (snd st) \<le> length (snd st')"
  using assms
proof (induction ns arbitrary: st)
  case Nil
  then show ?case by simp
next
  case (Cons v vs)
  from Cons.prems have v: "v < n" and vs: "list_all (\<lambda>v. v < n) vs" by simp_all
  from visit_out_inv[OF Cons.prems(2) Cons.prems(3) v] obtain st1 where
    s1: "visit_out n u v st = Some st1" and i1: "bfs_inv n st1"
    and l1: "length (snd st) \<le> length (snd st1)" by blast
  from Cons.IH[OF vs i1 Cons.prems(3)] obtain st' where
    "for_each (visit_out n u) vs st1 = Some st'" "bfs_inv n st'" "length (snd st1) \<le> length (snd st')"
    by blast
  with s1 l1 show ?case by auto
qed

lemma visit_vertex_inv:
  assumes "out_ok g" and "bfs_inv (num_nodes g) st" and "u < num_nodes g"
  shows "\<exists>st'. visit_vertex g u st = Some st' \<and> bfs_inv (num_nodes g) st' \<and>
           length (snd st) \<le> length (snd st')"
proof -
  from assms(1,3) have o: "out_neigh g u = Some (out_neighs g ! u)"
    and b: "list_all (\<lambda>v. v < num_nodes g) (out_neighs g ! u)"
    by (auto simp: out_ok_def out_neigh_def rd_def list_all_length)
  from for_each_visit_out_inv[OF b assms(2,3)] o show ?thesis
    by (simp add: visit_vertex_def)
qed

lemma serial_bfs_total:
  assumes "out_ok g" and "bfs_inv (num_nodes g) st" and "i \<le> length (snd st)"
  shows "\<exists>depth. serial_bfs g st i = Some depth \<and> length depth = num_nodes g"
  using assms(2,3)
proof (induction "num_nodes g - i" arbitrary: st i rule: less_induct)
  case less
  show ?case
  proof (cases "i < length (snd st)")
    case False
    with less.prems show ?thesis
      by (subst serial_bfs.simps) (simp add: bfs_inv_def)
  next
    case True
    from less.prems(1) have qn: "length (snd st) \<le> num_nodes g"
      and qb: "list_all (\<lambda>v. v < num_nodes g) (snd st)" by (simp_all add: bfs_inv_def)
    from qb True have u: "snd st ! i < num_nodes g" by (simp add: list_all_length)
    from visit_vertex_inv[OF assms(1) less.prems(1) u] obtain st' where
      s: "visit_vertex g (snd st ! i) st = Some st'" and inv: "bfs_inv (num_nodes g) st'"
      and l: "length (snd st) \<le> length (snd st')" by blast
    have m: "num_nodes g - (i + 1) < num_nodes g - i" using True qn by linarith
    have le: "i + 1 \<le> length (snd st')" using True l by linarith
    from less.hyps[OF m inv le] obtain depth where
      "serial_bfs g st' (i + 1) = Some depth" "length depth = num_nodes g" by blast
    with True s show ?thesis
      by (subst serial_bfs.simps) simp
  qed
qed

lemma serial_depths_total:
  assumes "out_ok g" and "source < num_nodes g"
  shows "\<exists>depth. serial_depths g source = Some depth \<and> length depth = num_nodes g"
proof -
  let ?n = "num_nodes g"
  let ?d = "(replicate ?n (- 1 :: int))[source := 0]"
  have c: "count_list (replicate k (a::int)) a = k" for k a by (induction k) simp_all
  have "Suc (count_list ?d (- 1)) = count_list (replicate ?n (- 1 :: int)) (- 1)"
    by (rule count_list_update) (use assms(2) in simp_all)
  then have cnt: "Suc (count_list ?d (- 1)) = ?n" by (simp only: c)
  have lo: "list_all (\<lambda>d. - 1 \<le> d) ?d"
    using assms(2) by (auto simp: list_all_length nth_list_update)
  have inv: "bfs_inv ?n (?d, [source])"
    using cnt lo assms(2) by (simp add: bfs_inv_def)
  from serial_bfs_total[OF assms(1) inv, of 0] assms(2) show ?thesis
    by (simp add: serial_depths_def wr_def)
qed

lemma check_in_total:
  assumes "u < length parent" and "u < length depth" and "list_all (\<lambda>v. v < length depth) ns"
  shows "check_in depth parent u ns \<noteq> None"
  using assms by (induction ns) (auto simp: rd_def)

lemma check_vertex_total:
  assumes "u < num_nodes g" and "num_nodes g \<le> length parent" and "length depth = num_nodes g"
    and "num_nodes g \<le> length (in_neighs g)"
    and "list_all (list_all (\<lambda>v. v < num_nodes g)) (take (num_nodes g) (in_neighs g))"
  shows "check_vertex g source depth parent u \<noteq> None"
proof -
  from assms have b: "list_all (\<lambda>v. v < length depth) (in_neighs g ! u)"
    by (auto simp: list_all_length)
  have "check_in depth parent u (in_neighs g ! u) \<noteq> None"
    by (rule check_in_total[OF _ _ b]) (use assms in simp_all)
  with assms show ?thesis
    by (auto simp: check_vertex_def rd_def in_neigh_def)
qed

lemma check_all_total:
  assumes "list_all (\<lambda>u. u < num_nodes g) us" and "num_nodes g \<le> length parent"
    and "length depth = num_nodes g" and "num_nodes g \<le> length (in_neighs g)"
    and "list_all (list_all (\<lambda>v. v < num_nodes g)) (take (num_nodes g) (in_neighs g))"
  shows "check_all g source depth parent us \<noteq> None"
  using assms(1)
proof (induction us)
  case Nil
  then show ?case by simp
next
  case (Cons u us)
  then have u: "u < num_nodes g" by simp
  from check_vertex_total[OF u assms(2-5)] obtain r where
    "check_vertex g source depth parent u = Some r" by blast
  with Cons show ?case by (cases r) auto
qed

lemma BFSVerifier_total:
  assumes "bfs_input_ok g source parent"
  shows "BFSVerifier g source parent \<noteq> None"
proof -
  from assms have o: "out_ok g" and s: "source < num_nodes g"
    and p: "num_nodes g \<le> length parent" and i: "num_nodes g \<le> length (in_neighs g)"
    and ib: "list_all (list_all (\<lambda>v. v < num_nodes g)) (take (num_nodes g) (in_neighs g))"
    by (simp_all add: bfs_input_ok_def out_ok_def)
  from serial_depths_total[OF o s] obtain depth where
    d: "serial_depths g source = Some depth" and l: "length depth = num_nodes g" by blast
  have "list_all (\<lambda>u. u < num_nodes g) [0..<num_nodes g]" by (simp add: list_all_iff)
  from check_all_total[OF this p l i ib] obtain r where
    "check_all g source depth parent [0..<num_nodes g] = Some r" by blast
  with d show ?thesis by (simp add: BFSVerifier_def)
qed

lemma for_each_total:
  assumes "\<And>x s. x \<in> set xs \<Longrightarrow> f x s \<noteq> None"
  shows "for_each f xs s \<noteq> None"
  using assms
proof (induction xs arbitrary: s)
  case Nil
  then show ?case by simp
next
  case (Cons x xs)
  from Cons.prems[of x s] obtain s1 where "f x s = Some s1" by auto
  with Cons show ?case by simp
qed

lemma SSSPVerifier_total:
  assumes pe: "pe < npes" and w: "0 < n div npes"
    and len: "n - (npes - 1) * (n div npes) \<le> length dist_to_test"
  shows "SSSPVerifier n pe npes dist_to_test shmem_out \<noteq> None"
proof -
  from pe obtain vp where vp: "Partition_new n pe npes = Some vp"
    by (auto simp: Partition_new_def Let_def)
  note f = Partition_new_fields[OF vp]
  let ?body = "\<lambda>v out. do { i \<leftarrow> vp_local_pos vp v;
                             d \<leftarrow> rd dist_to_test i;
                             Some (out @ [d]) }"
  have "for_each ?body [vp_start vp..<vp_end vp] shmem_out \<noteq> None"
  proof (rule for_each_total)
    fix v out
    assume "v \<in> set [vp_start vp..<vp_end vp]"
    then have v: "vp_start vp \<le> v" "v < vp_end vp" by simp_all
    from w f obtain i where lp: "vp_local_pos vp v = Some i"
      by (auto simp: vp_local_pos_def vp_recv_def cpp_div_def)
    from local_pos_own[OF vp pe v lp] have i: "i = v - vp_start vp" .
    have "npes * (n div npes) \<le> n" by simp
    then have "(npes - 1) * (n div npes) + n div npes \<le> n"
      using pe by (cases npes) (simp_all add: algebra_simps)
    then have wm: "n div npes \<le> n - (npes - 1) * (n div npes)" by linarith
    have "i < n - (npes - 1) * (n div npes)"
    proof (cases "pe + 1 < npes")
      case True
      with v f i have "i < n div npes" by auto
      with wm show ?thesis by linarith
    next
      case False
      with pe have last: "pe = npes - 1" by simp
      from f(4) last have st: "vp_start vp = (npes - 1) * (n div npes)" by simp
      from f(5) False have en: "vp_end vp = n" by simp
      from v i st en show ?thesis by linarith
    qed
    with len have "i < length dist_to_test" by linarith
    with lp show "?body v out \<noteq> None" by (simp add: rd_def)
  qed
  with vp show ?thesis by (auto simp: SSSPVerifier_def)
qed

lemma SSSPVerifier_output:
  assumes s: "SSSPVerifier n pe npes dist_to_test shmem_out = Some (ok, out')" and pe: "pe < npes"
  shows "ok \<and> out' = shmem_out @
           map (\<lambda>v. dist_to_test ! (v - pe * (n div npes)))
             [pe * (n div npes) ..< (if pe + 1 < npes then pe * (n div npes) + n div npes else n)]"
proof -
  from s obtain vp where vp: "Partition_new n pe npes = Some vp"
    and fe: "for_each (\<lambda>v out. do { i \<leftarrow> vp_local_pos vp v;
                                     d \<leftarrow> rd dist_to_test i;
                                     Some (out @ [d]) })
               [vp_start vp..<vp_end vp] shmem_out = Some out'"
    and ok: "ok"
    by (auto simp: SSSPVerifier_def bind_eq_Some_conv)
  note f = Partition_new_fields[OF vp]
  let ?Q = "\<lambda>k out. out = shmem_out @ map (\<lambda>v. dist_to_test ! (v - vp_start vp)) [vp_start vp..<k]"
  have "out' = shmem_out @ map (\<lambda>v. dist_to_test ! (v - vp_start vp)) [vp_start vp..<vp_end vp]"
  proof (cases "vp_start vp \<le> vp_end vp")
    case False
    with fe show ?thesis by simp
  next
    case True
    show ?thesis
    proof (rule for_each_range_invariant[OF fe _ True, where Q = ?Q])
      show "?Q (vp_start vp) shmem_out" by simp
    next
      fix k out out1
      assume k: "vp_start vp \<le> k" "k < vp_end vp" and q: "?Q k out"
        and step: "do { i \<leftarrow> vp_local_pos vp k; d \<leftarrow> rd dist_to_test i; Some (out @ [d]) } = Some out1"
      from step obtain i where lp: "vp_local_pos vp k = Some i" and i: "i < length dist_to_test"
        and o: "out1 = out @ [dist_to_test ! i]"
        by (auto simp: bind_eq_Some_conv rd_Some)
      from local_pos_own[OF vp pe k lp] have "i = k - vp_start vp" .
      with o q k show "?Q (Suc k) out1" by simp
    qed
  qed
  with ok f show ?thesis by simp
qed

text \<open>
Claim C9 (amended). The three verifiers report without aborting, but only the BFS verifier
  compares. \<open>TCVerifier\<close> returns \<open>true\<close> for every count on every rank; rank 0 prints the count
  and appends it to \<open>tc_output.txt\<close>, the other ranks write nothing. \<open>SSSPVerifier\<close> on a rank
  of the job returns \<open>true\<close> whenever it returns, having appended the distances of the rank's
  slice to \<open>sssp_output.txt\<close> in the order of the vertices; it returns on every rank of a
  partition of positive width whose distance array covers the rank's slice. \<open>BFSVerifier\<close>,
  whenever it returns, has run the serial traversal and returns \<open>true\<close> with no output
  exactly when the parent array agrees with the traversal's depths, and \<open>false\<close> with exactly
  one warning line otherwise; on the inputs of the harness it returns.
\<close>

theorem verifier_verdicts:
  "TCVerifier g test_total pe (stdout, tc_out)
     = (True, if pe = 0 then (stdout @ [test_total], tc_out @ [test_total]) else (stdout, tc_out)) \<and>
   (\<forall>ok out'. pe < npes \<and> SSSPVerifier n pe npes dist_to_test shmem_out = Some (ok, out') \<longrightarrow>
      ok \<and> out' = shmem_out @
           map (\<lambda>v. dist_to_test ! (v - pe * (n div npes)))
             [pe * (n div npes) ..< (if pe + 1 < npes then pe * (n div npes) + n div npes else n)]) \<and>
   (pe < npes \<and> 0 < n div npes \<and> n - (npes - 1) * (n div npes) \<le> length dist_to_test \<longrightarrow>
      SSSPVerifier n pe npes dist_to_test shmem_out \<noteq> None) \<and>
   (\<forall>ok ws. BFSVerifier g source parent = Some (ok, ws) \<longrightarrow>
      (\<exists>depth. serial_depths g source = Some depth \<and> ok = bfs_agrees g source depth parent \<and>
         (if ok then ws = [] else \<exists>w. ws = [w]))) \<and>
   (bfs_input_ok g source parent \<longrightarrow> BFSVerifier g source parent \<noteq> None)"
proof (intro conjI allI impI)
  show "TCVerifier g test_total pe (stdout, tc_out)
     = (True, if pe = 0 then (stdout @ [test_total], tc_out @ [test_total]) else (stdout, tc_out))"
    by (simp add: TCVerifier_def)
next
  fix ok out'
  assume a: "pe < npes \<and> SSSPVerifier n pe npes dist_to_test shmem_out = Some (ok, out')"
  from SSSPVerifier_output[of n pe npes dist_to_test shmem_out ok out'] a
  show ok and "out' = shmem_out @
           map (\<lambda>v. dist_to_test ! (v - pe * (n div npes)))
             [pe * (n div npes) ..< (if pe + 1 < npes then pe * (n div npes) + n div npes else n)]"
    by blast+
next
  assume "pe < npes \<and> 0 < n div npes \<and> n - (npes - 1) * (n div npes) \<le> length dist_to_test"
  then show "SSSPVerifier n pe npes dist_to_test shmem_out \<noteq> None"
    using SSSPVerifier_total by blast
next
  fix ok ws
  assume "BFSVerifier g source parent = Some (ok, ws)"
  then show "\<exists>depth. serial_depths g source = Some depth \<and> ok = bfs_agrees g source depth parent \<and>
         (if ok then ws = [] else \<exists>w. ws = [w])"
    by (rule BFSVerifier_verdict)
next
  assume "bfs_input_ok g source parent"
  then show "BFSVerifier g source parent \<noteq> None" by (rule BFSVerifier_total)
qed

theorem verifier_verdicts_witness:
  "\<exists>depth. serial_depths path_graph 0 = Some depth \<and>
      \<not> bfs_agrees path_graph 0 depth [0, 0, 1, 2, 3, 3] \<and>
      BFSVerifier path_graph 0 [0, 0, 1, 2, 3, 3] = Some (False, [NoEdge 3 5]) \<and>
      bfs_input_ok path_graph 0 [0, 0, 1, 2, 3, 3] \<and>
      TCVerifier path_graph 4 0 ([], [2]) = (True, [4], [2, 4]) \<and>
      SSSPVerifier 6 1 2 [3, 5, 7] [0, 1, 2] = Some (True, [0, 1, 2, 3, 5, 7]) \<and>
      [0, 1, 2, 3, 5, 7] = [0, 1, 2] @ map (\<lambda>v. [3, 5, 7] ! (v - 3)) [3..<6]"
proof -
  have b: "BFSVerifier path_graph 0 [0, 0, 1, 2, 3, 3] = Some (False, [NoEdge 3 5])"
    by code_simp
  have i: "bfs_input_ok path_graph 0 [0, 0, 1, 2, 3, 3]" by code_simp
  have s: "SSSPVerifier 6 1 2 [3, 5, 7] [0, 1, 2] = Some (True, [0, 1, 2, 3, 5, 7])" by code_simp
  have u: "[3..<6] = [3, 4, 5]" by code_simp
  from verifier_verdicts[of path_graph 4 0 "[]" "[2]" 2 6 "[3, 5, 7]" "[0, 1, 2]" 0 "[0, 0, 1, 2, 3, 3]"]
  have t: "TCVerifier path_graph 4 0 ([], [2]) = (True, [4], [2, 4])"
    and bb: "\<forall>ok ws. BFSVerifier path_graph 0 [0, 0, 1, 2, 3, 3] = Some (ok, ws) \<longrightarrow>
      (\<exists>depth. serial_depths path_graph 0 = Some depth \<and> ok = bfs_agrees path_graph 0 depth [0, 0, 1, 2, 3, 3] \<and>
         (if ok then ws = [] else \<exists>w. ws = [w]))"
    by simp_all
  from bb b obtain depth where "serial_depths path_graph 0 = Some depth"
    "\<not> bfs_agrees path_graph 0 depth [0, 0, 1, 2, 3, 3]" by blast
  with b i s t u show ?thesis by simp
qed

text \<open>
The claim as stated fails for the TC and SSSP verifiers: a triangle has one triangle, yet
  \<open>TCVerifier\<close> returns \<open>true\<close> for the count 0 and prints only the count; \<open>SSSPVerifier\<close>
  returns \<open>true\<close> for three equal distances 7, which no source vertex produces.
\<close>

theorem verifiers_accept_wrong_output:
  "brute_force_triangles K3 = 1 \<and> fst (TCVerifier K3 0 0 ([], [])) \<and>
   snd (TCVerifier K3 0 0 ([], [])) = ([0], [0]) \<and>
   SSSPVerifier 3 0 1 [7, 7, 7] [] = Some (True, [7, 7, 7])"
  by code_simp

end
